theory Spec2Isabelle
  imports Main "HOL-Library.Word"
begin

unbundle bit_operations_syntax

section \<open>The update queue of the reconciler (ReactFiberUpdateQueue)\<close>

text \<open>
  The module keeps, for every fiber, a queue of prioritised updates. The queues of the two
  fibers of a pair share one singly linked list of update objects, so the model has an
  explicit store: fibers, queues and updates are objects addressed by references, and every
  function of the module takes the store and returns the new one. A JavaScript reference
  always denotes an object, so the three object tables are total; \<open>null\<close> is \<open>None\<close>.
  The model is the production build: the blocks under \<open>__DEV__\<close> (the \<open>isProcessing\<close>
  flag and the warning of \<open>enqueueUpdate\<close>) are absent.
\<close>

subsection \<open>Data model\<close>

type_synonym ref = nat

type_synonym ExpirationTime = nat

text \<open>
  Modelled from the spec: the constant \<open>NoWork\<close> of \<open>./ReactFiberExpirationTime\<close>, which is
  not among the sources. The spec calls it the distinguished sentinel that means
  ``no pending work''; expiration times are numbers, a lower number being more urgent.
\<close>
definition NoWork :: ExpirationTime where
  "NoWork = 0"

text \<open>
  Modelled from the spec: the flag \<open>UpdateQueue\<close> of \<open>shared/ReactTypeOfSideEffect\<close>
  (imported as \<open>UpdateQueueEffect\<close>), which is not among the sources. Setting it in a
  fiber's \<open>effectTag\<close> marks the node as needing a visit in the commit phase.
\<close>
definition UpdateQueueEffect :: "32 word" where
  "UpdateQueueEffect = 32"

text \<open>The fields of a fiber that the module reads or writes.\<close>
record 's Fiber =
  alternate :: "ref option"
  updateQueue :: "ref option"
  memoizedState :: 's
  effectTag :: "32 word"

text \<open>
  \<open>process\<close> is called with the work-in-progress fiber and the previous state; the model
  hands it the fiber's fields as they are at the call. \<open>commit\<close> is a callback with side
  effects; the model keeps a label for it and records each call in the store (\<open>fired\<close>).
  The field \<open>next\<close> of the source is \<open>nxt\<close> here.
\<close>
record ('s, 'c) Update =
  expirationTime :: ExpirationTime
  process :: "('s Fiber \<Rightarrow> 's \<Rightarrow> 's) option"
  commit :: "'c option"
  nxt :: "ref option"
  nextEffect :: "ref option"

record 's UpdateQueue =
  qExpirationTime :: ExpirationTime
  baseState :: 's
  firstUpdate :: "ref option"
  lastUpdate :: "ref option"
  firstRenderPhaseUpdate :: "ref option"
  lastRenderPhaseUpdate :: "ref option"
  firstCapturedUpdate :: "ref option"
  lastCapturedUpdate :: "ref option"
  firstEffect :: "ref option"
  lastEffect :: "ref option"

text \<open>
  The store. \<open>nextQueue\<close> is the reference the next new queue object gets; \<open>fired\<close> is the
  trace of the commit callbacks called so far, each with the fiber it was called on.
\<close>
record ('s, 'c) store =
  fibers :: "ref \<Rightarrow> 's Fiber"
  queues :: "ref \<Rightarrow> 's UpdateQueue"
  updates :: "ref \<Rightarrow> ('s, 'c) Update"
  nextQueue :: ref
  fired :: "('c \<times> ref) list"

definition setFiber :: "ref \<Rightarrow> ('s Fiber \<Rightarrow> 's Fiber) \<Rightarrow> ('s, 'c) store \<Rightarrow> ('s, 'c) store" where
  "setFiber r f h = h\<lparr>fibers := (fibers h)(r := f (fibers h r))\<rparr>"

definition setQueue :: "ref \<Rightarrow> ('s UpdateQueue \<Rightarrow> 's UpdateQueue) \<Rightarrow> ('s, 'c) store \<Rightarrow> ('s, 'c) store" where
  "setQueue r f h = h\<lparr>queues := (queues h)(r := f (queues h r))\<rparr>"

definition setUpdate :: "ref \<Rightarrow> (('s, 'c) Update \<Rightarrow> ('s, 'c) Update) \<Rightarrow> ('s, 'c) store \<Rightarrow> ('s, 'c) store" where
  "setUpdate r f h = h\<lparr>updates := (updates h)(r := f (updates h r))\<rparr>"

subsection \<open>Creating and cloning queues\<close>

definition createUpdateQueue :: "'s \<Rightarrow> ('s, 'c) store \<Rightarrow> ref \<times> ('s, 'c) store" where
  "createUpdateQueue bs h =
     (nextQueue h,
      h\<lparr>queues := (queues h)(nextQueue h :=
            \<lparr>qExpirationTime = NoWork, baseState = bs,
             firstUpdate = None, lastUpdate = None,
             firstRenderPhaseUpdate = None, lastRenderPhaseUpdate = None,
             firstCapturedUpdate = None, lastCapturedUpdate = None,
             firstEffect = None, lastEffect = None\<rparr>),
         nextQueue := Suc (nextQueue h)\<rparr>)"

definition cloneUpdateQueue :: "ref \<Rightarrow> ('s, 'c) store \<Rightarrow> ref \<times> ('s, 'c) store" where
  "cloneUpdateQueue currentQueue h =
     (nextQueue h,
      h\<lparr>queues := (queues h)(nextQueue h :=
            \<lparr>qExpirationTime = qExpirationTime (queues h currentQueue),
             baseState = baseState (queues h currentQueue),
             firstUpdate = firstUpdate (queues h currentQueue),
             lastUpdate = lastUpdate (queues h currentQueue),
             firstRenderPhaseUpdate = None, lastRenderPhaseUpdate = None,
             firstCapturedUpdate = None, lastCapturedUpdate = None,
             firstEffect = None, lastEffect = None\<rparr>),
         nextQueue := Suc (nextQueue h)\<rparr>)"

definition createUpdate :: "ExpirationTime \<Rightarrow> ('s, 'c) Update" where
  "createUpdate t =
     \<lparr>expirationTime = t, process = None, commit = None, nxt = None, nextEffect = None\<rparr>"

subsection \<open>Enqueueing\<close>

definition appendUpdateToQueue ::
  "ref \<Rightarrow> ref \<Rightarrow> ExpirationTime \<Rightarrow> ('s, 'c) store \<Rightarrow> ('s, 'c) store" where
  "appendUpdateToQueue queue update t h =
     (let h1 = (case lastUpdate (queues h queue) of
                  None \<Rightarrow>
                    setQueue queue (\<lambda>q. q\<lparr>firstUpdate := Some update, lastUpdate := Some update\<rparr>) h
                | Some l \<Rightarrow>
                    setQueue queue (\<lambda>q. q\<lparr>lastUpdate := Some update\<rparr>)
                      (setUpdate l (\<lambda>u. u\<lparr>nxt := Some update\<rparr>) h))
      in if qExpirationTime (queues h1 queue) = NoWork \<or> qExpirationTime (queues h1 queue) > t
         then setQueue queue (\<lambda>q. q\<lparr>qExpirationTime := t\<rparr>) h1
         else h1)"

text \<open>
  The first half of \<open>enqueueUpdate\<close>: it finds the queues of the fiber and of its alternate
  and creates the missing ones. The result is \<open>queue1\<close>, \<open>queue2\<close> and the store.
\<close>
definition enqueueQueues ::
  "ref \<Rightarrow> ('s, 'c) store \<Rightarrow> ref \<times> ref option \<times> ('s, 'c) store" where
  "enqueueQueues fiber h =
     (case alternate (fibers h fiber) of
        None \<Rightarrow>
          (case updateQueue (fibers h fiber) of
             Some queue1 \<Rightarrow> (queue1, None, h)
           | None \<Rightarrow>
               (let (queue1, h1) = createUpdateQueue (memoizedState (fibers h fiber)) h
                in (queue1, None, setFiber fiber (\<lambda>f. f\<lparr>updateQueue := Some queue1\<rparr>) h1)))
      | Some alt \<Rightarrow>
          (case updateQueue (fibers h fiber) of
             None \<Rightarrow>
               (case updateQueue (fibers h alt) of
                  None \<Rightarrow>
                    (let (queue1, h1) = createUpdateQueue (memoizedState (fibers h fiber)) h;
                         h2 = setFiber fiber (\<lambda>f. f\<lparr>updateQueue := Some queue1\<rparr>) h1;
                         (queue2, h3) = createUpdateQueue (memoizedState (fibers h2 alt)) h2
                     in (queue1, Some queue2,
                         setFiber alt (\<lambda>f. f\<lparr>updateQueue := Some queue2\<rparr>) h3))
                | Some queue2 \<Rightarrow>
                    (let (queue1, h1) = cloneUpdateQueue queue2 h
                     in (queue1, Some queue2,
                         setFiber fiber (\<lambda>f. f\<lparr>updateQueue := Some queue1\<rparr>) h1)))
           | Some queue1 \<Rightarrow>
               (case updateQueue (fibers h alt) of
                  None \<Rightarrow>
                    (let (queue2, h1) = cloneUpdateQueue queue1 h
                     in (queue1, Some queue2,
                         setFiber alt (\<lambda>f. f\<lparr>updateQueue := Some queue2\<rparr>) h1))
                | Some queue2 \<Rightarrow> (queue1, Some queue2, h))))"

definition enqueueUpdate ::
  "ref \<Rightarrow> ref \<Rightarrow> ExpirationTime \<Rightarrow> ('s, 'c) store \<Rightarrow> ('s, 'c) store" where
  "enqueueUpdate fiber update t h =
     (case enqueueQueues fiber h of
        (queue1, None, h1) \<Rightarrow> appendUpdateToQueue queue1 update t h1
      | (queue1, Some queue2, h1) \<Rightarrow>
          if queue1 = queue2 then appendUpdateToQueue queue1 update t h1
          else if lastUpdate (queues h1 queue1) = None \<or> lastUpdate (queues h1 queue2) = None
          then appendUpdateToQueue queue2 update t (appendUpdateToQueue queue1 update t h1)
          else setQueue queue2 (\<lambda>q. q\<lparr>lastUpdate := Some update\<rparr>)
                 (appendUpdateToQueue queue1 update t h1))"

definition ensureWorkInProgressQueueIsAClone ::
  "ref \<Rightarrow> ref \<Rightarrow> ('s, 'c) store \<Rightarrow> ref \<times> ('s, 'c) store" where
  "ensureWorkInProgressQueueIsAClone workInProgress queue h =
     (case alternate (fibers h workInProgress) of
        None \<Rightarrow> (queue, h)
      | Some current \<Rightarrow>
          if Some queue = updateQueue (fibers h current)
          then (let (queue', h1) = cloneUpdateQueue queue h
                in (queue', setFiber workInProgress (\<lambda>f. f\<lparr>updateQueue := Some queue'\<rparr>) h1))
          else (queue, h))"

text \<open>
  The shared end of \<open>enqueueRenderPhaseUpdate\<close> and \<open>enqueueCapturedUpdate\<close>: the queue of
  the work-in-progress fiber, created when the fiber has none and cloned when it is the
  queue of the current fiber.
\<close>
definition workInProgressQueue :: "ref \<Rightarrow> ('s, 'c) store \<Rightarrow> ref \<times> ('s, 'c) store" where
  "workInProgressQueue workInProgress h =
     (case updateQueue (fibers h workInProgress) of
        None \<Rightarrow>
          (let (queue, h1) = createUpdateQueue (memoizedState (fibers h workInProgress)) h
           in (queue, setFiber workInProgress (\<lambda>f. f\<lparr>updateQueue := Some queue\<rparr>) h1))
      | Some queue \<Rightarrow> ensureWorkInProgressQueueIsAClone workInProgress queue h)"

definition enqueueRenderPhaseUpdate ::
  "ref \<Rightarrow> ref \<Rightarrow> ExpirationTime \<Rightarrow> ('s, 'c) store \<Rightarrow> ('s, 'c) store" where
  "enqueueRenderPhaseUpdate workInProgress update renderExpirationTime h =
     (let (queue, h0) = workInProgressQueue workInProgress h;
          h1 = (case lastRenderPhaseUpdate (queues h0 queue) of
                  None \<Rightarrow>
                    setQueue queue (\<lambda>q. q\<lparr>firstRenderPhaseUpdate := Some update,
                                          lastRenderPhaseUpdate := Some update\<rparr>) h0
                | Some l \<Rightarrow>
                    setQueue queue (\<lambda>q. q\<lparr>lastRenderPhaseUpdate := Some update\<rparr>)
                      (setUpdate l (\<lambda>u. u\<lparr>nxt := Some update\<rparr>) h0))
      in if qExpirationTime (queues h1 queue) = NoWork
            \<or> qExpirationTime (queues h1 queue) > renderExpirationTime
         then setQueue queue (\<lambda>q. q\<lparr>qExpirationTime := renderExpirationTime\<rparr>) h1
         else h1)"

definition enqueueCapturedUpdate ::
  "ref \<Rightarrow> ref \<Rightarrow> ExpirationTime \<Rightarrow> ('s, 'c) store \<Rightarrow> ('s, 'c) store" where
  "enqueueCapturedUpdate workInProgress update renderExpirationTime h =
     (let (queue, h0) = workInProgressQueue workInProgress h;
          h1 = (case lastCapturedUpdate (queues h0 queue) of
                  None \<Rightarrow>
                    setQueue queue (\<lambda>q. q\<lparr>firstCapturedUpdate := Some update,
                                          lastCapturedUpdate := Some update\<rparr>) h0
                | Some l \<Rightarrow>
                    setQueue queue (\<lambda>q. q\<lparr>lastCapturedUpdate := Some update\<rparr>)
                      (setUpdate l (\<lambda>u. u\<lparr>nxt := Some update\<rparr>) h0))
      in if qExpirationTime (queues h1 queue) = NoWork
            \<or> qExpirationTime (queues h1 queue) > renderExpirationTime
         then setQueue queue (\<lambda>q. q\<lparr>qExpirationTime := renderExpirationTime\<rparr>) h1
         else h1)"

subsection \<open>Processing\<close>

definition addToEffectList :: "ref \<Rightarrow> ref \<Rightarrow> ('s, 'c) store \<Rightarrow> ('s, 'c) store" where
  "addToEffectList queue update h =
     (let h1 = setUpdate update (\<lambda>u. u\<lparr>nextEffect := None\<rparr>) h
      in case lastEffect (queues h1 queue) of
           None \<Rightarrow> setQueue queue (\<lambda>q. q\<lparr>firstEffect := Some update, lastEffect := Some update\<rparr>) h1
         | Some l \<Rightarrow>
             setQueue queue (\<lambda>q. q\<lparr>lastEffect := Some update\<rparr>)
               (setUpdate l (\<lambda>u. u\<lparr>nextEffect := Some update\<rparr>) h1))"

definition processSingleUpdate ::
  "ref \<Rightarrow> ref \<Rightarrow> ref \<Rightarrow> 's \<Rightarrow> ('s, 'c) store \<Rightarrow> 's \<times> ('s, 'c) store" where
  "processSingleUpdate workInProgress queue update prevState h =
     (let commit_cb = commit (updates h update);
          process_fn = process (updates h update);
          h1 = (if commit_cb \<noteq> None
                then addToEffectList queue update
                       (setFiber workInProgress
                          (\<lambda>f. f\<lparr>effectTag := effectTag f OR UpdateQueueEffect\<rparr>) h)
                else h)
      in case process_fn of
           Some p \<Rightarrow> (p (fibers h1 workInProgress) prevState, h1)
         | None \<Rightarrow> (prevState, h1))"

text \<open>The local variables of \<open>processUpdateQueue\<close> that its three loops share.\<close>
record 's locals =
  newBaseState :: 's
  newFirstUpdate :: "ref option"
  newFirstRenderPhaseUpdate :: "ref option"
  newFirstCapturedUpdate :: "ref option"
  newExpirationTime :: ExpirationTime
  resultState :: 's

text \<open>
  The three loops of \<open>processUpdateQueue\<close> have the same body but for what they do at the
  first update they skip; \<open>listKind\<close> says which loop it is.
\<close>
datatype listKind = Persistent | RenderPhase | Captured

fun firstSkipped :: "listKind \<Rightarrow> ref \<Rightarrow> 's locals \<Rightarrow> 's locals" where
  "firstSkipped Persistent update l =
     (if newFirstUpdate l = None
      then l\<lparr>newFirstUpdate := Some update, newBaseState := resultState l\<rparr>
      else l)"
| "firstSkipped RenderPhase update l =
     (if newFirstRenderPhaseUpdate l = None
      then (if newFirstUpdate l = None
            then l\<lparr>newFirstRenderPhaseUpdate := Some update, newBaseState := resultState l\<rparr>
            else l\<lparr>newFirstRenderPhaseUpdate := Some update\<rparr>)
      else l)"
| "firstSkipped Captured update l =
     (if newFirstCapturedUpdate l = None
      then (if newFirstUpdate l = None \<and> newFirstRenderPhaseUpdate l = None
            then l\<lparr>newFirstCapturedUpdate := Some update, newBaseState := resultState l\<rparr>
            else l\<lparr>newFirstCapturedUpdate := Some update\<rparr>)
      else l)"

definition remainingExpirationTime :: "ExpirationTime \<Rightarrow> 's locals \<Rightarrow> 's locals" where
  "remainingExpirationTime updateExpirationTime l =
     (if newExpirationTime l = NoWork \<or> newExpirationTime l > updateExpirationTime
      then l\<lparr>newExpirationTime := updateExpirationTime\<rparr>
      else l)"

text \<open>One turn of a loop, on the update \<open>update\<close>.\<close>
definition visitUpdate ::
  "listKind \<Rightarrow> ExpirationTime \<Rightarrow> ref \<Rightarrow> ref \<Rightarrow> ref \<Rightarrow> 's locals \<times> ('s, 'c) store
     \<Rightarrow> 's locals \<times> ('s, 'c) store" where
  "visitUpdate kind renderExpirationTime workInProgress queue update st =
     (let l = fst st; h = snd st;
          updateExpirationTime = expirationTime (updates h update)
      in if updateExpirationTime > renderExpirationTime
         then (remainingExpirationTime updateExpirationTime (firstSkipped kind update l), h)
         else (case processSingleUpdate workInProgress queue update (resultState l) h of
                 (s, h1) \<Rightarrow> (l\<lparr>resultState := s\<rparr>, h1)))"

text \<open>
  A loop walks the \<open>next\<close> links until \<open>null\<close>; on a cyclic list it never ends, which is the
  value \<open>None\<close>.
\<close>
partial_function (option) walkUpdates ::
  "listKind \<Rightarrow> ExpirationTime \<Rightarrow> ref \<Rightarrow> ref \<Rightarrow> ref option \<Rightarrow> 's locals \<times> ('s, 'c) store
     \<Rightarrow> ('s locals \<times> ('s, 'c) store) option" where
  "walkUpdates kind renderExpirationTime workInProgress queue update st =
     (case update of
        None \<Rightarrow> Some st
      | Some u \<Rightarrow>
          walkUpdates kind renderExpirationTime workInProgress queue
            (nxt (updates (snd (visitUpdate kind renderExpirationTime workInProgress queue u st)) u))
            (visitUpdate kind renderExpirationTime workInProgress queue u st))"

declare walkUpdates.simps [code]

text \<open>The end of \<open>processUpdateQueue\<close>, after the three loops.\<close>
definition storeResult :: "ref \<Rightarrow> ref \<Rightarrow> 's locals \<Rightarrow> ('s, 'c) store \<Rightarrow> ('s, 'c) store" where
  "storeResult workInProgress queue l h =
     (let h1 = (if newFirstUpdate l = None
                then setQueue queue (\<lambda>q. q\<lparr>lastUpdate := None\<rparr>) h else h);
          h2 = (if newFirstRenderPhaseUpdate l = None
                then setQueue queue (\<lambda>q. q\<lparr>lastRenderPhaseUpdate := None\<rparr>) h1
                else setFiber workInProgress
                       (\<lambda>f. f\<lparr>effectTag := effectTag f OR UpdateQueueEffect\<rparr>) h1);
          h3 = (if newFirstCapturedUpdate l = None
                then setQueue queue (\<lambda>q. q\<lparr>lastCapturedUpdate := None\<rparr>) h2
                else setFiber workInProgress
                       (\<lambda>f. f\<lparr>effectTag := effectTag f OR UpdateQueueEffect\<rparr>) h2);
          l1 = (if newFirstUpdate l = None \<and> newFirstRenderPhaseUpdate l = None
                   \<and> newFirstCapturedUpdate l = None
                then l\<lparr>newBaseState := resultState l\<rparr> else l);
          h4 = setQueue queue
                 (\<lambda>q. q\<lparr>baseState := newBaseState l1,
                        firstUpdate := newFirstUpdate l1,
                        firstRenderPhaseUpdate := newFirstRenderPhaseUpdate l1,
                        firstCapturedUpdate := newFirstCapturedUpdate l1,
                        qExpirationTime := newExpirationTime l1\<rparr>) h3
      in setFiber workInProgress (\<lambda>f. f\<lparr>memoizedState := resultState l1\<rparr>) h4)"

definition processUpdateQueue ::
  "ref \<Rightarrow> ref \<Rightarrow> ExpirationTime \<Rightarrow> ('s, 'c) store \<Rightarrow> ('s, 'c) store option" where
  "processUpdateQueue workInProgress queue0 renderExpirationTime h =
     (if qExpirationTime (queues h queue0) = NoWork
         \<or> qExpirationTime (queues h queue0) > renderExpirationTime
      then Some h
      else
        (case ensureWorkInProgressQueueIsAClone workInProgress queue0 h of
           (queue, h0) \<Rightarrow>
             (case walkUpdates Persistent renderExpirationTime workInProgress queue
                     (firstUpdate (queues h0 queue))
                     (\<lparr>newBaseState = baseState (queues h0 queue),
                       newFirstUpdate = None,
                       newFirstRenderPhaseUpdate = None,
                       newFirstCapturedUpdate = None,
                       newExpirationTime = NoWork,
                       resultState = baseState (queues h0 queue)\<rparr>, h0) of
                None \<Rightarrow> None
              | Some st1 \<Rightarrow>
                  (case walkUpdates RenderPhase renderExpirationTime workInProgress queue
                          (firstRenderPhaseUpdate (queues (snd st1) queue)) st1 of
                     None \<Rightarrow> None
                   | Some st2 \<Rightarrow>
                       (case walkUpdates Captured renderExpirationTime workInProgress queue
                               (firstCapturedUpdate (queues (snd st2) queue)) st2 of
                          None \<Rightarrow> None
                        | Some st3 \<Rightarrow>
                            Some (storeResult workInProgress queue (fst st3) (snd st3)))))))"

subsection \<open>Committing\<close>

text \<open>The first two blocks of \<open>commitUpdateQueue\<close>, which join the two local lists.\<close>
definition joinRenderPhaseUpdates :: "ref \<Rightarrow> ('s, 'c) store \<Rightarrow> ('s, 'c) store" where
  "joinRenderPhaseUpdates finishedQueue h =
     (if firstRenderPhaseUpdate (queues h finishedQueue) \<noteq> None
      then setQueue finishedQueue
             (\<lambda>q. q\<lparr>firstRenderPhaseUpdate := None, lastRenderPhaseUpdate := None\<rparr>)
             (case lastUpdate (queues h finishedQueue) of
                Some l \<Rightarrow>
                  setQueue finishedQueue (\<lambda>q. q\<lparr>lastUpdate := lastRenderPhaseUpdate q\<rparr>)
                    (setUpdate l
                       (\<lambda>u. u\<lparr>nxt := firstRenderPhaseUpdate (queues h finishedQueue)\<rparr>) h)
              | None \<Rightarrow> h)
      else h)"

definition joinCapturedUpdates :: "ref \<Rightarrow> ('s, 'c) store \<Rightarrow> ('s, 'c) store" where
  "joinCapturedUpdates finishedQueue h =
     (if firstCapturedUpdate (queues h finishedQueue) \<noteq> None
      then setQueue finishedQueue
             (\<lambda>q. q\<lparr>firstCapturedUpdate := None, lastCapturedUpdate := None\<rparr>)
             (case lastUpdate (queues h finishedQueue) of
                Some l \<Rightarrow>
                  setQueue finishedQueue (\<lambda>q. q\<lparr>lastUpdate := lastCapturedUpdate q\<rparr>)
                    (setUpdate l
                       (\<lambda>u. u\<lparr>nxt := firstCapturedUpdate (queues h finishedQueue)\<rparr>) h)
              | None \<Rightarrow> h)
      else h)"

text \<open>
  The loop of \<open>commitUpdateQueue\<close> over the effect list. Calling a commit callback is
  recorded in \<open>fired\<close>. On a cyclic effect list the loop never ends (\<open>None\<close>).
\<close>
partial_function (option) commitEffects ::
  "ref \<Rightarrow> ref option \<Rightarrow> ('s, 'c) store \<Rightarrow> ('s, 'c) store option" where
  "commitEffects finishedWork effect h =
     (case effect of
        None \<Rightarrow> Some h
      | Some e \<Rightarrow>
          (case commit (updates h e) of
             Some c \<Rightarrow>
               commitEffects finishedWork
                 (nextEffect (updates (setUpdate e (\<lambda>u. u\<lparr>commit := None\<rparr>) h) e))
                 ((setUpdate e (\<lambda>u. u\<lparr>commit := None\<rparr>) h)
                    \<lparr>fired := fired h @ [(c, finishedWork)]\<rparr>)
           | None \<Rightarrow> commitEffects finishedWork (nextEffect (updates h e)) h))"

declare commitEffects.simps [code]

definition commitUpdateQueue ::
  "ref \<Rightarrow> ref \<Rightarrow> ExpirationTime \<Rightarrow> ('s, 'c) store \<Rightarrow> ('s, 'c) store option" where
  "commitUpdateQueue finishedWork finishedQueue renderExpirationTime h =
     (let h1 = joinCapturedUpdates finishedQueue (joinRenderPhaseUpdates finishedQueue h)
      in commitEffects finishedWork (firstEffect (queues h1 finishedQueue))
           (setQueue finishedQueue (\<lambda>q. q\<lparr>firstEffect := None, lastEffect := None\<rparr>) h1))"

subsection \<open>Lists in the store\<close>

text \<open>\<open>linked nx p xs\<close>: following the links \<open>nx\<close> from \<open>p\<close> visits exactly \<open>xs\<close>, then \<open>null\<close>.\<close>
primrec linked :: "(ref \<Rightarrow> ref option) \<Rightarrow> ref option \<Rightarrow> ref list \<Rightarrow> bool" where
  "linked nx p [] = (p = None)"
| "linked nx p (x # xs) = (p = Some x \<and> linked nx (nx x) xs)"

text \<open>The \<open>next\<close> links and the \<open>nextEffect\<close> links of a store.\<close>
definition nextOf :: "('s, 'c) store \<Rightarrow> ref \<Rightarrow> ref option" where
  "nextOf h r = nxt (updates h r)"

definition nextEffectOf :: "('s, 'c) store \<Rightarrow> ref \<Rightarrow> ref option" where
  "nextEffectOf h r = nextEffect (updates h r)"

text \<open>The updates a traversal of the persistent list of a queue sees, in order.\<close>
definition persistentList :: "('s, 'c) store \<Rightarrow> ref \<Rightarrow> ref list \<Rightarrow> bool" where
  "persistentList h queue xs = linked (nextOf h) (firstUpdate (queues h queue)) xs"

definition renderPhaseList :: "('s, 'c) store \<Rightarrow> ref \<Rightarrow> ref list \<Rightarrow> bool" where
  "renderPhaseList h queue xs = linked (nextOf h) (firstRenderPhaseUpdate (queues h queue)) xs"

definition capturedList :: "('s, 'c) store \<Rightarrow> ref \<Rightarrow> ref list \<Rightarrow> bool" where
  "capturedList h queue xs = linked (nextOf h) (firstCapturedUpdate (queues h queue)) xs"

definition effectList :: "('s, 'c) store \<Rightarrow> ref \<Rightarrow> ref list \<Rightarrow> bool" where
  "effectList h queue xs = linked (nextEffectOf h) (firstEffect (queues h queue)) xs"

text \<open>The effect list of a queue is \<open>es\<close>, and \<open>lastEffect\<close> is its last element.\<close>
definition effectsAre :: "('s, 'c) store \<Rightarrow> ref \<Rightarrow> ref list \<Rightarrow> bool" where
  "effectsAre h queue es =
     (effectList h queue es
      \<and> lastEffect (queues h queue) = (if es = [] then None else Some (last es)))"

subsection \<open>The loops along a list\<close>

text \<open>A loop of \<open>processUpdateQueue\<close> unrolled along the updates \<open>us\<close>, in order.\<close>
definition visitAll ::
  "listKind \<Rightarrow> ExpirationTime \<Rightarrow> ref \<Rightarrow> ref \<Rightarrow> ref list \<Rightarrow> 's locals \<times> ('s, 'c) store
     \<Rightarrow> 's locals \<times> ('s, 'c) store" where
  "visitAll kind P w queue us st = foldl (\<lambda>st u. visitUpdate kind P w queue u st) st us"

text \<open>The local variables of \<open>processUpdateQueue\<close> before the first loop.\<close>
definition initialLocals :: "('s, 'c) store \<Rightarrow> ref \<Rightarrow> 's locals" where
  "initialLocals h0 queue =
     \<lparr>newBaseState = baseState (queues h0 queue), newFirstUpdate = None,
      newFirstRenderPhaseUpdate = None, newFirstCapturedUpdate = None,
      newExpirationTime = NoWork, resultState = baseState (queues h0 queue)\<rparr>"

text \<open>The three loops, along the three lists.\<close>
definition threeLoops ::
  "ExpirationTime \<Rightarrow> ref \<Rightarrow> ref \<Rightarrow> ref list \<Rightarrow> ref list \<Rightarrow> ref list
     \<Rightarrow> 's locals \<times> ('s, 'c) store \<Rightarrow> 's locals \<times> ('s, 'c) store" where
  "threeLoops P w queue xs ys zs st =
     visitAll Captured P w queue zs
       (visitAll RenderPhase P w queue ys (visitAll Persistent P w queue xs st))"

subsection \<open>The updates applied in order\<close>

text \<open>An update has sufficient priority for a render at \<open>P\<close>.\<close>
definition eligible :: "ExpirationTime \<Rightarrow> ('s, 'c) store \<Rightarrow> ref \<Rightarrow> bool" where
  "eligible P h u = (expirationTime (updates h u) \<le> P)"

text \<open>
  The reference the loops are compared with: the updates \<open>us\<close> applied one after the other
  to a state, as \<open>processSingleUpdate\<close> applies one. The fiber handed to \<open>process\<close> has the
  effect flag set from the first update with a commit callback on.
\<close>
definition applyUpdate :: "('s, 'c) store \<Rightarrow> 's Fiber \<times> 's \<Rightarrow> ref \<Rightarrow> 's Fiber \<times> 's" where
  "applyUpdate h fs u =
     (let f1 = (if commit (updates h u) \<noteq> None
                then (fst fs)\<lparr>effectTag := effectTag (fst fs) OR UpdateQueueEffect\<rparr>
                else fst fs)
      in (f1, case process (updates h u) of Some p \<Rightarrow> p f1 (snd fs) | None \<Rightarrow> snd fs))"

definition applyUpdates ::
  "('s, 'c) store \<Rightarrow> ref list \<Rightarrow> 's Fiber \<times> 's \<Rightarrow> 's Fiber \<times> 's" where
  "applyUpdates h us fs = foldl (applyUpdate h) fs us"

text \<open>An update is put on the effect list when it is processed.\<close>
definition hasEffect :: "ExpirationTime \<Rightarrow> ('s, 'c) store \<Rightarrow> ref \<Rightarrow> bool" where
  "hasEffect P h u = (eligible P h u \<and> commit (updates h u) \<noteq> None)"

text \<open>The calls of commit callbacks that firing the updates \<open>es\<close> in order makes.\<close>
definition firedBy :: "('s, 'c) store \<Rightarrow> ref \<Rightarrow> ref list \<Rightarrow> ('c \<times> ref) list" where
  "firedBy h finishedWork es =
     concat (map (\<lambda>e. case commit (updates h e) of Some c \<Rightarrow> [(c, finishedWork)] | None \<Rightarrow> []) es)"

subsection \<open>What the loops keep and record\<close>

text \<open>What a loop of \<open>processUpdateQueue\<close> keeps of the store \<open>h0\<close>.\<close>
definition loopKeeps :: "ref \<Rightarrow> ref \<Rightarrow> ('s, 'c) store \<Rightarrow> ('s, 'c) store \<Rightarrow> bool" where
  "loopKeeps w queue h0 h =
     ((\<forall>r. expirationTime (updates h r) = expirationTime (updates h0 r)
           \<and> process (updates h r) = process (updates h0 r)
           \<and> commit (updates h r) = commit (updates h0 r)
           \<and> nxt (updates h r) = nxt (updates h0 r))
      \<and> (\<forall>r. (queues h r)\<lparr>firstEffect := None, lastEffect := None\<rparr>
               = (queues h0 r)\<lparr>firstEffect := None, lastEffect := None\<rparr>
             \<and> (r \<noteq> queue \<longrightarrow> queues h r = queues h0 r))
      \<and> (\<forall>r. (fibers h r)\<lparr>effectTag := 0\<rparr> = (fibers h0 r)\<lparr>effectTag := 0\<rparr>
             \<and> (r \<noteq> w \<longrightarrow> fibers h r = fibers h0 r))
      \<and> nextQueue h = nextQueue h0
      \<and> fired h = fired h0)"

text \<open>No update has been skipped so far.\<close>
definition noneSkipped :: "'s locals \<Rightarrow> bool" where
  "noneSkipped l =
     (newFirstUpdate l = None \<and> newFirstRenderPhaseUpdate l = None
      \<and> newFirstCapturedUpdate l = None)"

text \<open>The remaining expiration time is \<open>NoWork\<close> exactly as long as no update has been skipped.\<close>
definition noWorkIffNoneSkipped :: "'s locals \<Rightarrow> bool" where
  "noWorkIffNoneSkipped l = ((newExpirationTime l = NoWork) = noneSkipped l)"

text \<open>In a loop, the heads of the lists that later loops walk are still \<open>null\<close>.\<close>
fun laterHeadsNull :: "listKind \<Rightarrow> 's locals \<Rightarrow> bool" where
  "laterHeadsNull Persistent l =
     (newFirstRenderPhaseUpdate l = None \<and> newFirstCapturedUpdate l = None)"
| "laterHeadsNull RenderPhase l = (newFirstCapturedUpdate l = None)"
| "laterHeadsNull Captured l = True"

subsection \<open>Example stores\<close>

text \<open>
  A store in which no queue exists yet: every fiber has state \<open>s\<close>, no alternate and no
  queue, and every update is as \<open>createUpdate\<close> makes it.
\<close>
definition initialStore :: "'s \<Rightarrow> ('s, 'c) store" where
  "initialStore s =
     \<lparr>fibers = (\<lambda>_. \<lparr>alternate = None, updateQueue = None, memoizedState = s, effectTag = 0\<rparr>),
      queues = (\<lambda>_. \<lparr>qExpirationTime = NoWork, baseState = s,
                      firstUpdate = None, lastUpdate = None,
                      firstRenderPhaseUpdate = None, lastRenderPhaseUpdate = None,
                      firstCapturedUpdate = None, lastCapturedUpdate = None,
                      firstEffect = None, lastEffect = None\<rparr>),
      updates = (\<lambda>_. createUpdate NoWork),
      nextQueue = 0,
      fired = []\<rparr>"

text \<open>An update that appends the letters \<open>x\<close> to a string state.\<close>
definition appendLetters :: "string \<Rightarrow> ExpirationTime \<Rightarrow> (string, 'c) Update" where
  "appendLetters x t = (createUpdate t)\<lparr>process := Some (\<lambda>_ s. s @ x)\<rparr>"

text \<open>The four updates A1, B2, C1, D2 of the header comment, at the references 1 to 4.\<close>
definition lettersUpdates :: "(string, nat) store" where
  "lettersUpdates =
     (initialStore [])\<lparr>updates := (updates (initialStore []))
        (1 := appendLetters ''A'' 1, 2 := appendLetters ''B'' 2,
         3 := appendLetters ''C'' 1, 4 := appendLetters ''D'' 2)\<rparr>"

text \<open>The four updates enqueued in this order on fiber 0, which has no alternate.\<close>
definition lettersStore :: "(string, nat) store" where
  "lettersStore =
     enqueueUpdate 0 4 2 (enqueueUpdate 0 3 1 (enqueueUpdate 0 2 2 (enqueueUpdate 0 1 1
       lettersUpdates)))"

text \<open>An update that appends the letters \<open>x\<close> and has a commit callback, labelled \<open>x\<close>.\<close>
definition callbackUpdate :: "string \<Rightarrow> ExpirationTime \<Rightarrow> (string, string) Update" where
  "callbackUpdate x t = (createUpdate t)\<lparr>process := Some (\<lambda>_ s. s @ x), commit := Some x\<rparr>"

text \<open>
  The current fiber 0 and its work-in-progress fiber 1 with the one queue 0, which is empty:
  the work-in-progress fiber has the queue of the current fiber until a render clones it.
\<close>
definition sharedQueueStore :: "'s \<Rightarrow> ('s, 'c) store" where
  "sharedQueueStore s =
     (initialStore s)\<lparr>fibers := (fibers (initialStore s :: ('s, 'c) store))
        (0 := \<lparr>alternate = Some 1, updateQueue = Some 0, memoizedState = s, effectTag = 0\<rparr>,
         1 := \<lparr>alternate = Some 0, updateQueue = Some 0, memoizedState = s, effectTag = 0\<rparr>),
        nextQueue := 1\<rparr>"

text \<open>Two updates of priority 1 with commit callbacks, enqueued on that pair.\<close>
definition callbacksStore :: "(string, string) store" where
  "callbacksStore =
     enqueueUpdate 0 2 1 (enqueueUpdate 0 1 1
       ((sharedQueueStore [])\<lparr>updates := (updates (sharedQueueStore []))
          (1 := callbackUpdate ''A'' 1, 2 := callbackUpdate ''B'' 1)\<rparr>))"

text \<open>
  The updates A1, B2, C1, D2 of the header comment, each with a commit callback named by
  its letter, enqueued on the fiber pair 0 and 1 that has the one queue 0.
\<close>
definition callbackLettersStore :: "(string, string) store" where
  "callbackLettersStore =
     enqueueUpdate 0 4 2 (enqueueUpdate 0 3 1 (enqueueUpdate 0 2 2 (enqueueUpdate 0 1 1
       ((sharedQueueStore [])\<lparr>updates := (updates (sharedQueueStore []))
          (1 := callbackUpdate ''A'' 1, 2 := callbackUpdate ''B'' 2,
           3 := callbackUpdate ''C'' 1, 4 := callbackUpdate ''D'' 2)\<rparr>))))"

text \<open>
  A queue with all three lists, on fiber 0: A1 in the persistent list, B1 and C2 in the
  render phase list, D2 and E1 in the captured list.
\<close>
definition threeListsStore :: "(string, nat) store" where
  "threeListsStore =
     enqueueCapturedUpdate 0 5 1 (enqueueCapturedUpdate 0 4 1
       (enqueueRenderPhaseUpdate 0 3 1 (enqueueRenderPhaseUpdate 0 2 1
          (enqueueUpdate 0 1 1
             ((initialStore [])\<lparr>updates := (updates (initialStore []))
                (1 := appendLetters ''A'' 1, 2 := appendLetters ''B'' 1,
                 3 := appendLetters ''C'' 2, 4 := appendLetters ''D'' 2,
                 5 := appendLetters ''E'' 1)\<rparr>)))))"

text \<open>
  A render phase update of priority 2 enqueued during a render at priority 1, on fiber 0
  whose persistent list is empty.
\<close>
definition renderPhaseOnlyStore :: "(string, nat) store" where
  "renderPhaseOnlyStore =
     enqueueRenderPhaseUpdate 0 1 1
       ((initialStore [])\<lparr>updates := (updates (initialStore [])) (1 := appendLetters ''A'' 2)\<rparr>)"

text \<open>One update enqueued as a captured update on fiber 0, which has no queue yet.\<close>
definition capturedStore :: "(string, nat) store" where
  "capturedStore =
     enqueueCapturedUpdate 0 1 1
       ((initialStore [])\<lparr>updates := (updates (initialStore [])) (1 := appendLetters ''A'' 1)\<rparr>)"

text \<open>The fibers 0 and 1 are each other's alternate; neither has a queue yet.\<close>
definition pairedFibersStore :: "'s \<Rightarrow> ('s, 'c) store" where
  "pairedFibersStore s =
     (initialStore s)\<lparr>fibers := (fibers (initialStore s :: ('s, 'c) store))
        (0 := \<lparr>alternate = Some 1, updateQueue = None, memoizedState = s, effectTag = 0\<rparr>,
         1 := \<lparr>alternate = Some 0, updateQueue = None, memoizedState = s, effectTag = 0\<rparr>)\<rparr>"

text \<open>
  The picture of the header comment: A1, B1 and C2 are enqueued on the current fiber 0,
  and a render at priority 1 on the work-in-progress fiber 1 has processed A and B, so
  that the pointer of the work-in-progress queue is ahead of the current one.
\<close>
definition aheadStore :: "(string, nat) store" where
  "aheadStore =
     the (processUpdateQueue 1 1 1
       (enqueueUpdate 0 3 2 (enqueueUpdate 0 2 1 (enqueueUpdate 0 1 1
          ((pairedFibersStore [])\<lparr>updates := (updates (pairedFibersStore []))
             (1 := appendLetters ''A'' 1, 2 := appendLetters ''B'' 1,
              3 := appendLetters ''C'' 2, 4 := appendLetters ''D'' 2)\<rparr>)))))"

text \<open>
  An update of priority 5 and then one of priority 1 enqueued on fiber 0 of the pair.
\<close>
definition urgentStore :: "(string, nat) store" where
  "urgentStore =
     enqueueUpdate 0 2 1 (enqueueUpdate 0 1 5
       ((pairedFibersStore [])\<lparr>updates := (updates (pairedFibersStore []))
          (1 := appendLetters ''A'' 5, 2 := appendLetters ''B'' 1)\<rparr>))"

text \<open>
  On fiber 0 a render phase update R is enqueued first and then an update U with
  \<open>enqueueUpdate\<close>; both have priority 1 and a commit callback.
\<close>
definition renderPhaseFirstStore :: "(string, string) store" where
  "renderPhaseFirstStore =
     enqueueUpdate 0 2 1 (enqueueRenderPhaseUpdate 0 1 1
       ((initialStore [])\<lparr>updates := (updates (initialStore []))
          (1 := callbackUpdate ''R'' 1, 2 := callbackUpdate ''U'' 1)\<rparr>))"

text \<open>
  A1 and B2 are enqueued on the current fiber 0 of the pair and the render phase update C2
  on the work-in-progress fiber 1; the render at priority 1 on fiber 1 has skipped B and C
  and has been committed, which has joined C to the list after B.
\<close>
definition staleLastUpdateStore :: "(string, nat) store" where
  "staleLastUpdateStore =
     the (commitUpdateQueue 1 1 1 (the (processUpdateQueue 1 1 1
       (enqueueRenderPhaseUpdate 1 3 1 (enqueueUpdate 0 2 2 (enqueueUpdate 0 1 1
          ((pairedFibersStore [])\<lparr>updates := (updates (pairedFibersStore []))
             (1 := appendLetters ''A'' 1, 2 := appendLetters ''B'' 2,
              3 := appendLetters ''C'' 2, 4 := appendLetters ''D'' 1)\<rparr>)))))))"

section \<open>The fast path\<close>

text \<open>
  C8. When the expiration time of the queue is \<open>NoWork\<close> or later than the render's,
  \<open>processUpdateQueue\<close> returns at once and the store is the one it was given: no queue,
  fiber or update changes, no queue is created, nothing is fired. A queue that
  \<open>createUpdateQueue\<close> has just made is such a queue, at every render expiration time.
\<close>
theorem processUpdateQueue_fast_path:
  "(qExpirationTime (queues h queue) = NoWork \<or> qExpirationTime (queues h queue) > P
      \<longrightarrow> processUpdateQueue w queue P h = Some h)
   \<and> processUpdateQueue w (fst (createUpdateQueue bs h)) P (snd (createUpdateQueue bs h))
       = Some (snd (createUpdateQueue bs h))"
  by (simp add: processUpdateQueue_def createUpdateQueue_def)

lemmas store_simps =
  createUpdate_def enqueueUpdate_def enqueueQueues_def createUpdateQueue_def
  cloneUpdateQueue_def appendUpdateToQueue_def setQueue_def setUpdate_def setFiber_def
  NoWork_def ensureWorkInProgressQueueIsAClone_def

lemmas letters_simps =
  lettersStore_def lettersUpdates_def initialStore_def appendLetters_def store_simps

theorem processUpdateQueue_fast_path_witness:
  "(qExpirationTime (queues lettersStore 0) = NoWork \<or> qExpirationTime (queues lettersStore 0) > 0)
   \<and> processUpdateQueue 0 0 0 lettersStore = Some lettersStore"
proof -
  have "qExpirationTime (queues lettersStore 0) > 0"
    by (simp add: letters_simps)
  then show ?thesis
    using processUpdateQueue_fast_path [of lettersStore 0 0 0] by simp
qed

section \<open>The example of the header comment\<close>

lemmas process_simps =
  processUpdateQueue_def walkUpdates.simps visitUpdate_def addToEffectList_def
  processSingleUpdate_def remainingExpirationTime_def storeResult_def persistentList_def
  nextOf_def

lemmas commit_simps =
  commitUpdateQueue_def joinRenderPhaseUpdates_def joinCapturedUpdates_def commitEffects.simps

text \<open>
  C1. From the empty string as base state and the updates A1, B2, C1, D2, each appending
  its letter: a run at priority 1 leaves the memoized state \<open>AC\<close>, the base state \<open>A\<close>
  and the persistent list B, C, D; a run at priority 2 on that queue then leaves the
  memoized state \<open>ABCD\<close>, which is also what one run at priority 2 on the original queue
  leaves, that is every update applied once in the order of enqueueing.
\<close>
theorem letters_example:
  "map_option (\<lambda>h. (memoizedState (fibers h 0), baseState (queues h 0), persistentList h 0 [2, 3, 4]))
     (processUpdateQueue 0 0 1 lettersStore) = Some (''AC'', ''A'', True)
   \<and> map_option (\<lambda>h. (memoizedState (fibers h 0), baseState (queues h 0), persistentList h 0 []))
       (Option.bind (processUpdateQueue 0 0 1 lettersStore) (processUpdateQueue 0 0 2))
     = Some (''ABCD'', ''ABCD'', True)
   \<and> map_option (\<lambda>h. memoizedState (fibers h 0)) (processUpdateQueue 0 0 2 lettersStore)
     = Some ''ABCD''"
  by (simp add: letters_simps process_simps)

section \<open>Linked lists\<close>

lemma linked_unique: "linked nx p xs \<Longrightarrow> linked nx p ys \<Longrightarrow> xs = ys"
proof (induction xs arbitrary: p ys)
  case Nil
  then show ?case by (cases ys) auto
next
  case (Cons x xs)
  then show ?case by (cases ys) auto
qed

lemma nextOf_upd_simps [simp]:
  "nextOf (setQueue q f h) = nextOf h"
  "nextOf (setFiber w g h) = nextOf h"
  by (simp_all add: nextOf_def setQueue_def setFiber_def fun_eq_iff)

lemma linked_suffix: "linked nx p (xs @ y # ys) \<Longrightarrow> linked nx (Some y) (y # ys)"
  by (induction xs arbitrary: p) auto

lemma linked_not_in_tail: "linked nx (nx x) xs \<Longrightarrow> x \<notin> set xs"
proof
  assume l: "linked nx (nx x) xs" and m: "x \<in> set xs"
  then obtain as bs where xs: "xs = as @ x # bs" by (auto simp: in_set_conv_decomp)
  with l have "linked nx (Some x) (x # bs)" using linked_suffix by blast
  then have "linked nx (nx x) bs" by simp
  with l have "xs = bs" using linked_unique by blast
  with xs show False by simp
qed

lemma linked_distinct: "linked nx p xs \<Longrightarrow> distinct xs"
  by (induction xs arbitrary: p) (auto dest: linked_not_in_tail)

lemma linked_upd_other: "u \<notin> set xs \<Longrightarrow> linked (nx(u := v)) p xs = linked nx p xs"
  by (induction xs arbitrary: p) auto

lemma linked_cong: "(\<And>x. x \<in> set xs \<Longrightarrow> nx x = nx' x) \<Longrightarrow> linked nx p xs = linked nx' p xs"
  by (induction xs arbitrary: p) auto

lemma linked_last_None: "linked nx p xs \<Longrightarrow> xs \<noteq> [] \<Longrightarrow> nx (last xs) = None"
  by (induction xs arbitrary: p) (auto split: if_splits)

lemma linked_join:
  "xs \<noteq> [] \<Longrightarrow> linked nx p xs \<Longrightarrow> linked nx r ys \<Longrightarrow> set xs \<inter> set ys = {}
     \<Longrightarrow> linked (nx(last xs := r)) p (xs @ ys)"
proof (induction xs arbitrary: p rule: list_nonempty_induct)
  case (single x)
  then have "x \<notin> set ys" by auto
  then have "linked (nx(x := r)) r ys = linked nx r ys" by (rule linked_upd_other)
  with single have "linked (nx(x := r)) ((nx(x := r)) x) ys" by simp
  with single show ?case by (simp del: fun_upd_apply)
next
  case (cons x xs)
  from cons.prems have "x \<notin> set xs" using linked_not_in_tail by fastforce
  with cons.hyps have ne: "last xs \<noteq> x" using last_in_set by metis
  from cons.prems have "linked nx (nx x) xs" "set xs \<inter> set ys = {}" by auto
  with cons.prems(2) have "linked (nx(last xs := r)) (nx x) (xs @ ys)" by (intro cons.IH)
  with ne have "linked (nx(last xs := r)) ((nx(last xs := r)) x) (xs @ ys)" by simp
  with cons show ?case by (simp del: fun_upd_apply)
qed

section \<open>The loops of processUpdateQueue\<close>

lemma nextOf_visitUpdate [simp]:
  "nextOf (snd (visitUpdate kind P w queue u st)) = nextOf (snd st)"
  by (auto simp: visitUpdate_def processSingleUpdate_def addToEffectList_def nextOf_def
      setUpdate_def setQueue_def setFiber_def Let_def fun_eq_iff split: option.splits prod.splits)

lemma walkUpdates_visitAll:
  "linked (nextOf (snd st)) p xs \<Longrightarrow>
   walkUpdates kind P w queue p st = Some (visitAll kind P w queue xs st)"
proof (induction xs arbitrary: p st)
  case Nil
  then show ?case by (simp add: walkUpdates.simps visitAll_def)
next
  case (Cons x xs)
  then have p: "p = Some x" and l: "linked (nextOf (snd st)) (nextOf (snd st) x) xs" by auto
  let ?st = "visitUpdate kind P w queue x st"
  from l have "linked (nextOf (snd ?st)) (nextOf (snd ?st) x) xs" by simp
  then have "walkUpdates kind P w queue (nextOf (snd ?st) x) ?st = Some (visitAll kind P w queue xs ?st)"
    by (rule Cons.IH)
  then show ?case
    using p by (subst walkUpdates.simps) (simp add: visitAll_def nextOf_def [symmetric])
qed

lemma walkUpdates_invariant:
  assumes step: "\<And>u st. I st \<Longrightarrow> I (visitUpdate kind P w queue u st)"
    and run: "walkUpdates kind P w queue p st = Some st'"
    and init: "I st"
  shows "I st'"
proof -
  have "kind = kind \<and> P = P \<and> w = w \<and> queue = queue \<longrightarrow> I st \<longrightarrow> I st'"
  proof (rule walkUpdates.raw_induct
      [where P = "\<lambda>k P' w' q' p st st'. k = kind \<and> P' = P \<and> w' = w \<and> q' = queue \<longrightarrow> I st \<longrightarrow> I st'",
        OF _ run])
    fix f k P' w' q' upd s y
    assume IH: "\<And>k P' w' q' p s y. f k P' w' q' p s = Some y \<Longrightarrow>
                 k = kind \<and> P' = P \<and> w' = w \<and> q' = queue \<longrightarrow> I s \<longrightarrow> I y"
      and eq: "(case upd of None \<Rightarrow> Some s
               | Some u \<Rightarrow> f k P' w' q' (nxt (updates (snd (visitUpdate k P' w' q' u s)) u))
                            (visitUpdate k P' w' q' u s)) = Some y"
    show "k = kind \<and> P' = P \<and> w' = w \<and> q' = queue \<longrightarrow> I s \<longrightarrow> I y"
    proof (cases upd)
      case None
      with eq show ?thesis by simp
    next
      case (Some u)
      with eq IH step show ?thesis by auto
    qed
  qed
  with init show ?thesis by simp
qed

lemma setQueue_simps [simp]:
  "fibers (setQueue q f h) = fibers h"
  "queues (setQueue q f h) = (queues h)(q := f (queues h q))"
  "updates (setQueue q f h) = updates h"
  "nextQueue (setQueue q f h) = nextQueue h"
  "fired (setQueue q f h) = fired h"
  by (simp_all add: setQueue_def)

lemma setFiber_simps [simp]:
  "fibers (setFiber w g h) = (fibers h)(w := g (fibers h w))"
  "queues (setFiber w g h) = queues h"
  "updates (setFiber w g h) = updates h"
  "nextQueue (setFiber w g h) = nextQueue h"
  "fired (setFiber w g h) = fired h"
  by (simp_all add: setFiber_def)

lemma setUpdate_simps [simp]:
  "fibers (setUpdate u k h) = fibers h"
  "queues (setUpdate u k h) = queues h"
  "updates (setUpdate u k h) = (updates h)(u := k (updates h u))"
  "nextQueue (setUpdate u k h) = nextQueue h"
  "fired (setUpdate u k h) = fired h"
  by (simp_all add: setUpdate_def)

lemma loopKeeps_refl [simp]: "loopKeeps w queue h h"
  by (simp add: loopKeeps_def)

lemma loopKeeps_addToEffectList:
  "loopKeeps w queue h0 h \<Longrightarrow> loopKeeps w queue h0 (addToEffectList queue u h)"
  by (auto simp: loopKeeps_def addToEffectList_def Let_def split: option.splits)

lemma loopKeeps_processSingleUpdate:
  "loopKeeps w queue h0 h \<Longrightarrow> loopKeeps w queue h0 (snd (processSingleUpdate w queue u s h))"
proof -
  assume k: "loopKeeps w queue h0 h"
  then have "loopKeeps w queue h0
               (setFiber w (\<lambda>f. f\<lparr>effectTag := effectTag f OR UpdateQueueEffect\<rparr>) h)"
    by (auto simp: loopKeeps_def)
  then have "loopKeeps w queue h0 (addToEffectList queue u
               (setFiber w (\<lambda>f. f\<lparr>effectTag := effectTag f OR UpdateQueueEffect\<rparr>) h))"
    by (rule loopKeeps_addToEffectList)
  with k show ?thesis
    by (simp add: processSingleUpdate_def Let_def split: option.splits)
qed

lemma loopKeeps_visitUpdate:
  "loopKeeps w queue h0 (snd st) \<Longrightarrow> loopKeeps w queue h0 (snd (visitUpdate kind P w queue u st))"
  using loopKeeps_processSingleUpdate [of w queue h0 "snd st" u "resultState (fst st)"]
  by (auto simp: visitUpdate_def Let_def split: prod.splits)

lemma loopKeeps_walkUpdates:
  "walkUpdates kind P w queue p st = Some st' \<Longrightarrow> loopKeeps w queue h0 (snd st)
     \<Longrightarrow> loopKeeps w queue h0 (snd st')"
  by (rule walkUpdates_invariant [where I = "\<lambda>st. loopKeeps w queue h0 (snd st)"])
     (auto intro: loopKeeps_visitUpdate)

lemmas callbacks_simps =
  callbacksStore_def sharedQueueStore_def callbackUpdate_def initialStore_def store_simps

lemma loopKeeps_storeResult:
  "loopKeeps w queue h0 h \<Longrightarrow>
     (\<forall>r. expirationTime (updates (storeResult w queue l h) r) = expirationTime (updates h0 r)
         \<and> process (updates (storeResult w queue l h) r) = process (updates h0 r)
         \<and> commit (updates (storeResult w queue l h) r) = commit (updates h0 r)
         \<and> nxt (updates (storeResult w queue l h) r) = nxt (updates h0 r))
     \<and> (\<forall>r. r \<noteq> queue \<longrightarrow> queues (storeResult w queue l h) r = queues h0 r)
     \<and> (\<forall>r. r \<noteq> w \<longrightarrow> fibers (storeResult w queue l h) r = fibers h0 r)
     \<and> nextQueue (storeResult w queue l h) = nextQueue h0
     \<and> fired (storeResult w queue l h) = fired h0"
  by (simp add: loopKeeps_def storeResult_def Let_def)

lemma ensure_keeps:
  "ensureWorkInProgressQueueIsAClone w q0 h = (q, h0) \<Longrightarrow>
     updates h0 = updates h \<and> (\<forall>r. r \<noteq> q \<longrightarrow> queues h0 r = queues h r)
     \<and> (\<forall>r. r \<noteq> w \<longrightarrow> fibers h0 r = fibers h r) \<and> fired h0 = fired h"
  by (auto simp: ensureWorkInProgressQueueIsAClone_def cloneUpdateQueue_def Let_def
      split: option.splits if_splits)

lemma processUpdateQueue_cases:
  assumes "processUpdateQueue w q0 P h = Some h'"
  obtains (fast) "qExpirationTime (queues h q0) = NoWork \<or> qExpirationTime (queues h q0) > P" "h' = h"
  | (slow) q h0 st1 st2 st3 where
      "\<not> (qExpirationTime (queues h q0) = NoWork \<or> qExpirationTime (queues h q0) > P)"
      "ensureWorkInProgressQueueIsAClone w q0 h = (q, h0)"
      "walkUpdates Persistent P w q (firstUpdate (queues h0 q))
         (\<lparr>newBaseState = baseState (queues h0 q), newFirstUpdate = None,
           newFirstRenderPhaseUpdate = None, newFirstCapturedUpdate = None,
           newExpirationTime = NoWork, resultState = baseState (queues h0 q)\<rparr>, h0) = Some st1"
      "walkUpdates RenderPhase P w q (firstRenderPhaseUpdate (queues (snd st1) q)) st1 = Some st2"
      "walkUpdates Captured P w q (firstCapturedUpdate (queues (snd st2) q)) st2 = Some st3"
      "h' = storeResult w q (fst st3) (snd st3)"
  using assms
  by (auto simp: processUpdateQueue_def split: if_splits prod.splits option.splits)

section \<open>What a run of processUpdateQueue changes\<close>

text \<open>
  C9 (amended). A run of \<open>processUpdateQueue\<close>, on a clone or not, leaves the fields
  \<open>expirationTime\<close>, \<open>process\<close>, \<open>commit\<close> and \<open>next\<close> of every update as they were; it
  changes no queue but the one it works on (the clone, when it makes one) and no fiber but
  the work-in-progress fiber, and fires nothing. So every other queue has the persistent
  list it had. Of the updates it writes the \<open>nextEffect\<close> links only.
\<close>
theorem processUpdateQueue_frame:
  assumes run: "processUpdateQueue w q0 P h = Some h'"
  shows "(\<forall>r. expirationTime (updates h' r) = expirationTime (updates h r)
            \<and> process (updates h' r) = process (updates h r)
            \<and> commit (updates h' r) = commit (updates h r)
            \<and> nxt (updates h' r) = nxt (updates h r))
         \<and> (\<forall>r. r \<noteq> fst (ensureWorkInProgressQueueIsAClone w q0 h) \<longrightarrow> queues h' r = queues h r)
         \<and> (\<forall>r xs. r \<noteq> fst (ensureWorkInProgressQueueIsAClone w q0 h)
               \<longrightarrow> persistentList h' r xs = persistentList h r xs)
         \<and> (\<forall>r. r \<noteq> w \<longrightarrow> fibers h' r = fibers h r)
         \<and> fired h' = fired h"
  using run
proof (cases rule: processUpdateQueue_cases)
  case fast
  then show ?thesis by simp
next
  case (slow q h0 st1 st2 st3)
  have "loopKeeps w q h0 (snd st1)"
    using slow(3) by (rule loopKeeps_walkUpdates) simp
  with slow(4) have "loopKeeps w q h0 (snd st2)" by (rule loopKeeps_walkUpdates)
  with slow(5) have k: "loopKeeps w q h0 (snd st3)" by (rule loopKeeps_walkUpdates)
  note a = loopKeeps_storeResult [OF k, of "fst st3", folded slow(6)]
  note b = ensure_keeps [OF slow(2)]
  have u: "\<forall>r. expirationTime (updates h' r) = expirationTime (updates h r)
            \<and> process (updates h' r) = process (updates h r)
            \<and> commit (updates h' r) = commit (updates h r)
            \<and> nxt (updates h' r) = nxt (updates h r)"
    using a b by simp
  have q: "\<forall>r. r \<noteq> q \<longrightarrow> queues h' r = queues h r"
    using a b by simp
  have "nextOf h' = nextOf h" using u by (simp add: nextOf_def fun_eq_iff)
  with q have "\<forall>r xs. r \<noteq> q \<longrightarrow> persistentList h' r xs = persistentList h r xs"
    by (simp add: persistentList_def)
  moreover have "\<forall>r. r \<noteq> w \<longrightarrow> fibers h' r = fibers h r" using a b by simp
  moreover have "fired h' = fired h" using a b by simp
  ultimately show ?thesis using u q slow(2) by simp
qed

lemma callbacks_run:
  "processUpdateQueue 1 0 1 callbacksStore \<noteq> None"
  "nextEffect (updates callbacksStore 1) = None"
  "nextEffect (updates (the (processUpdateQueue 1 0 1 callbacksStore)) 1) = Some 2"
  "updateQueue (fibers (the (processUpdateQueue 1 0 1 callbacksStore)) 1) = Some 1"
  "persistentList callbacksStore 0 [1, 2]"
  by (simp_all add: callbacks_simps process_simps)

text \<open>
  C9, as stated, fails: the run on the clone links the first update of the shared
  persistent list to the second in the effect list, which changes its \<open>nextEffect\<close> field.
\<close>
theorem processUpdateQueue_writes_nextEffect:
  "processUpdateQueue 1 0 1 callbacksStore \<noteq> None
   \<and> persistentList callbacksStore 0 [1, 2]
   \<and> nextEffect (updates callbacksStore 1) = None
   \<and> nextEffect (updates (the (processUpdateQueue 1 0 1 callbacksStore)) 1) = Some 2"
  by (simp add: callbacks_simps process_simps)

theorem processUpdateQueue_frame_witness:
  "processUpdateQueue 1 0 1 callbacksStore = Some (the (processUpdateQueue 1 0 1 callbacksStore))
   \<and> fst (ensureWorkInProgressQueueIsAClone 1 0 callbacksStore) = 1
   \<and> queues (the (processUpdateQueue 1 0 1 callbacksStore)) 0 = queues callbacksStore 0
   \<and> persistentList (the (processUpdateQueue 1 0 1 callbacksStore)) 0 [1, 2]
   \<and> fibers (the (processUpdateQueue 1 0 1 callbacksStore)) 0 = fibers callbacksStore 0"
proof -
  have r: "processUpdateQueue 1 0 1 callbacksStore = Some (the (processUpdateQueue 1 0 1 callbacksStore))"
    using callbacks_run(1) by simp
  have e: "fst (ensureWorkInProgressQueueIsAClone 1 0 callbacksStore) = 1"
    by (simp add: callbacks_simps)
  show ?thesis
    using processUpdateQueue_frame [OF r] r e callbacks_run(5) by simp
qed

section \<open>A queue with every update applied\<close>

lemma noWork_iff_visitUpdate:
  assumes "noWorkIffNoneSkipped (fst st)"
  shows "noWorkIffNoneSkipped (fst (visitUpdate kind P w queue u st))"
proof (cases "expirationTime (updates (snd st) u) > P")
  case True
  then have "expirationTime (updates (snd st) u) \<noteq> NoWork" by (simp add: NoWork_def)
  with True assms show ?thesis
    by (cases kind)
       (auto simp: visitUpdate_def Let_def remainingExpirationTime_def noneSkipped_def
          noWorkIffNoneSkipped_def)
next
  case False
  with assms show ?thesis
    by (simp add: visitUpdate_def Let_def noneSkipped_def noWorkIffNoneSkipped_def
        split: prod.splits)
qed

lemma noWork_iff_walkUpdates:
  "walkUpdates kind P w queue p st = Some st'
     \<Longrightarrow> noWorkIffNoneSkipped (fst st)
     \<Longrightarrow> noWorkIffNoneSkipped (fst st')"
  by (rule walkUpdates_invariant
        [where I = "\<lambda>st. noWorkIffNoneSkipped (fst st)"])
     (auto intro: noWork_iff_visitUpdate)

lemma storeResult_queue:
  "firstUpdate (queues (storeResult w q l h) q) = newFirstUpdate l"
  "firstRenderPhaseUpdate (queues (storeResult w q l h) q) = newFirstRenderPhaseUpdate l"
  "firstCapturedUpdate (queues (storeResult w q l h) q) = newFirstCapturedUpdate l"
  "qExpirationTime (queues (storeResult w q l h) q) = newExpirationTime l"
  by (simp_all add: storeResult_def Let_def)

text \<open>
  C7 (amended). When a run of \<open>processUpdateQueue\<close> that went through the lists has left
  all three list heads of the queue \<open>null\<close>, every update has been applied; the queue's
  expiration time is then \<open>NoWork\<close> and another call, at any render expiration time, returns
  the store unchanged.
\<close>
theorem processUpdateQueue_again:
  assumes run: "processUpdateQueue w q0 P h = Some h'"
    and slow: "\<not> (qExpirationTime (queues h q0) = NoWork \<or> qExpirationTime (queues h q0) > P)"
    and q: "q = fst (ensureWorkInProgressQueueIsAClone w q0 h)"
    and heads: "firstUpdate (queues h' q) = None"
      "firstRenderPhaseUpdate (queues h' q) = None"
      "firstCapturedUpdate (queues h' q) = None"
  shows "processUpdateQueue w q P' h' = Some h'"
  using run
proof (cases rule: processUpdateQueue_cases)
  case fast
  with slow show ?thesis by simp
next
  case (slow q' h0 st1 st2 st3)
  from slow(2) q have [simp]: "q' = q" by simp
  have "noWorkIffNoneSkipped (fst st1)"
    using slow(3) by (rule noWork_iff_walkUpdates) (simp add: noneSkipped_def noWorkIffNoneSkipped_def)
  with slow(4) have "noWorkIffNoneSkipped (fst st2)"
    by (rule noWork_iff_walkUpdates)
  with slow(5) have "noWorkIffNoneSkipped (fst st3)"
    by (rule noWork_iff_walkUpdates)
  moreover have "noneSkipped (fst st3)"
    using heads slow(6) by (simp add: storeResult_queue noneSkipped_def)
  ultimately have "qExpirationTime (queues h' q) = NoWork"
    using slow(6) by (simp add: storeResult_queue noWorkIffNoneSkipped_def)
  then show ?thesis by (simp add: processUpdateQueue_def)
qed

lemma letters_all_applied:
  "processUpdateQueue 0 0 2 lettersStore \<noteq> None"
  "\<not> (qExpirationTime (queues lettersStore 0) = NoWork \<or> qExpirationTime (queues lettersStore 0) > 2)"
  "fst (ensureWorkInProgressQueueIsAClone 0 0 lettersStore) = 0"
  "firstUpdate (queues (the (processUpdateQueue 0 0 2 lettersStore)) 0) = None"
  "firstRenderPhaseUpdate (queues (the (processUpdateQueue 0 0 2 lettersStore)) 0) = None"
  "firstCapturedUpdate (queues (the (processUpdateQueue 0 0 2 lettersStore)) 0) = None"
  by (simp_all add: letters_simps process_simps)

theorem processUpdateQueue_again_witness:
  "processUpdateQueue 0 0 2 lettersStore = Some (the (processUpdateQueue 0 0 2 lettersStore))
   \<and> firstUpdate (queues (the (processUpdateQueue 0 0 2 lettersStore)) 0) = None
   \<and> firstRenderPhaseUpdate (queues (the (processUpdateQueue 0 0 2 lettersStore)) 0) = None
   \<and> firstCapturedUpdate (queues (the (processUpdateQueue 0 0 2 lettersStore)) 0) = None
   \<and> processUpdateQueue 0 0 7 (the (processUpdateQueue 0 0 2 lettersStore))
       = Some (the (processUpdateQueue 0 0 2 lettersStore))"
proof -
  have r: "processUpdateQueue 0 0 2 lettersStore = Some (the (processUpdateQueue 0 0 2 lettersStore))"
    using letters_all_applied(1) by simp
  show ?thesis
    using processUpdateQueue_again [OF r letters_all_applied(2) letters_all_applied(3) [symmetric]
        letters_all_applied(4-6), of 7] r letters_all_applied(4-6)
    by simp
qed

lemmas captured_simps =
  capturedStore_def enqueueCapturedUpdate_def workInProgressQueue_def initialStore_def
  appendLetters_def store_simps

text \<open>
  C7, as stated, fails: the queue has \<open>firstUpdate = null\<close> and a captured update, and
  the run applies it.
\<close>
theorem processUpdateQueue_null_firstUpdate_runs:
  "firstUpdate (queues capturedStore 0) = None
   \<and> memoizedState (fibers capturedStore 0) = []
   \<and> processUpdateQueue 0 0 1 capturedStore \<noteq> None
   \<and> memoizedState (fibers (the (processUpdateQueue 0 0 1 capturedStore)) 0) = ''A''
   \<and> processUpdateQueue 0 0 1 capturedStore \<noteq> Some capturedStore"
proof -
  have a: "firstUpdate (queues capturedStore 0) = None"
    "memoizedState (fibers capturedStore 0) = []"
    "processUpdateQueue 0 0 1 capturedStore \<noteq> None"
    "memoizedState (fibers (the (processUpdateQueue 0 0 1 capturedStore)) 0) = ''A''"
    by (simp_all add: captured_simps process_simps)
  then have "processUpdateQueue 0 0 1 capturedStore \<noteq> Some capturedStore"
    by (metis list.distinct(1) option.sel)
  with a show ?thesis by simp
qed

section \<open>The base state and the result of a run\<close>

lemma applyUpdates_simps [simp]:
  "applyUpdates h [] fs = fs"
  "applyUpdates h (u # us) fs = applyUpdates h us (applyUpdate h fs u)"
  "applyUpdates h (us @ vs) fs = applyUpdates h vs (applyUpdates h us fs)"
  by (simp_all add: applyUpdates_def)

lemma visitAll_simps [simp]:
  "visitAll kind P w q [] st = st"
  "visitAll kind P w q (u # us) st = visitAll kind P w q us (visitUpdate kind P w q u st)"
  "visitAll kind P w q (us @ vs) st = visitAll kind P w q vs (visitAll kind P w q us st)"
  by (simp_all add: visitAll_def)

lemma loopKeeps_applyUpdate:
  "loopKeeps w q h0 h \<Longrightarrow> applyUpdate h = applyUpdate h0"
  by (simp add: loopKeeps_def applyUpdate_def fun_eq_iff)

lemma loopKeeps_eligible:
  "loopKeeps w q h0 h \<Longrightarrow> eligible P h u = eligible P h0 u"
  by (simp add: loopKeeps_def eligible_def)

lemma loopKeeps_visitAll:
  "loopKeeps w q h0 (snd st) \<Longrightarrow> loopKeeps w q h0 (snd (visitAll kind P w q us st))"
  by (induction us arbitrary: st) (simp_all add: loopKeeps_visitUpdate)

lemma loopKeeps_queue:
  assumes "loopKeeps w q h0 h"
  shows "firstUpdate (queues h r) = firstUpdate (queues h0 r)"
    "firstRenderPhaseUpdate (queues h r) = firstRenderPhaseUpdate (queues h0 r)"
    "firstCapturedUpdate (queues h r) = firstCapturedUpdate (queues h0 r)"
    "lastUpdate (queues h r) = lastUpdate (queues h0 r)"
    "lastRenderPhaseUpdate (queues h r) = lastRenderPhaseUpdate (queues h0 r)"
    "lastCapturedUpdate (queues h r) = lastCapturedUpdate (queues h0 r)"
    "baseState (queues h r) = baseState (queues h0 r)"
    "qExpirationTime (queues h r) = qExpirationTime (queues h0 r)"
proof -
  from assms have e: "(queues h r)\<lparr>firstEffect := None, lastEffect := None\<rparr>
               = (queues h0 r)\<lparr>firstEffect := None, lastEffect := None\<rparr>"
    by (simp add: loopKeeps_def)
  show "firstUpdate (queues h r) = firstUpdate (queues h0 r)"
    using arg_cong [OF e, of firstUpdate] by simp
  show "firstRenderPhaseUpdate (queues h r) = firstRenderPhaseUpdate (queues h0 r)"
    using arg_cong [OF e, of firstRenderPhaseUpdate] by simp
  show "firstCapturedUpdate (queues h r) = firstCapturedUpdate (queues h0 r)"
    using arg_cong [OF e, of firstCapturedUpdate] by simp
  show "lastUpdate (queues h r) = lastUpdate (queues h0 r)"
    using arg_cong [OF e, of lastUpdate] by simp
  show "lastRenderPhaseUpdate (queues h r) = lastRenderPhaseUpdate (queues h0 r)"
    using arg_cong [OF e, of lastRenderPhaseUpdate] by simp
  show "lastCapturedUpdate (queues h r) = lastCapturedUpdate (queues h0 r)"
    using arg_cong [OF e, of lastCapturedUpdate] by simp
  show "baseState (queues h r) = baseState (queues h0 r)"
    using arg_cong [OF e, of baseState] by simp
  show "qExpirationTime (queues h r) = qExpirationTime (queues h0 r)"
    using arg_cong [OF e, of qExpirationTime] by simp
qed

lemma loopKeeps_nextOf: "loopKeeps w q h0 h \<Longrightarrow> nextOf h = nextOf h0"
  by (simp add: loopKeeps_def nextOf_def fun_eq_iff)

lemma visitUpdate_eligible:
  assumes "eligible P h u"
  shows "fst (visitUpdate kind P w q u (l, h))
           = l\<lparr>resultState := snd (applyUpdate h (fibers h w, resultState l) u)\<rparr>"
    and "fibers (snd (visitUpdate kind P w q u (l, h))) w
           = fst (applyUpdate h (fibers h w, resultState l) u)"
  using assms
  by (auto simp: eligible_def visitUpdate_def processSingleUpdate_def addToEffectList_def
      applyUpdate_def Let_def split: option.splits)

lemma visitUpdate_skipped:
  assumes "\<not> eligible P h u"
  shows "visitUpdate kind P w q u (l, h)
           = (remainingExpirationTime (expirationTime (updates h u)) (firstSkipped kind u l), h)"
  using assms by (simp add: eligible_def visitUpdate_def Let_def)

lemma remainingExpirationTime_fields [simp]:
  "newBaseState (remainingExpirationTime t l) = newBaseState l"
  "resultState (remainingExpirationTime t l) = resultState l"
  "newFirstUpdate (remainingExpirationTime t l) = newFirstUpdate l"
  "newFirstRenderPhaseUpdate (remainingExpirationTime t l) = newFirstRenderPhaseUpdate l"
  "newFirstCapturedUpdate (remainingExpirationTime t l) = newFirstCapturedUpdate l"
  by (simp_all add: remainingExpirationTime_def)

lemma firstSkipped_result [simp]: "resultState (firstSkipped kind u l) = resultState l"
  by (cases kind) simp_all

text \<open>The result state and the fiber after a loop: the eligible updates applied in order.\<close>
lemma visitAll_result:
  "loopKeeps w q h0 h \<Longrightarrow>
   (fibers (snd (visitAll kind P w q us (l, h))) w, resultState (fst (visitAll kind P w q us (l, h))))
     = applyUpdates h0 (filter (eligible P h0) us) (fibers h w, resultState l)"
proof (induction us arbitrary: l h)
  case Nil
  then show ?case by simp
next
  case (Cons u us)
  note k = Cons.prems
  show ?case
  proof (cases "eligible P h0 u")
    case True
    with k have e: "eligible P h u" by (simp add: loopKeeps_eligible)
    obtain l1 h1 where v: "visitUpdate kind P w q u (l, h) = (l1, h1)" by fastforce
    from k have "loopKeeps w q h0 h1"
      using loopKeeps_visitUpdate [of w q h0 "(l, h)" kind P u] v by simp
    from Cons.IH [OF this, of l1]
    have "(fibers (snd (visitAll kind P w q us (l1, h1))) w,
           resultState (fst (visitAll kind P w q us (l1, h1))))
          = applyUpdates h0 (filter (eligible P h0) us) (fibers h1 w, resultState l1)" .
    moreover have "(fibers h1 w, resultState l1) = applyUpdate h0 (fibers h w, resultState l) u"
      using visitUpdate_eligible [OF e, of kind w q l] v loopKeeps_applyUpdate [OF k]
      by (simp add: prod_eq_iff)
    ultimately show ?thesis using True v by simp
  next
    case False
    with k have e: "\<not> eligible P h u" by (simp add: loopKeeps_eligible)
    show ?thesis
      using False Cons.IH [OF k] by (simp add: visitUpdate_skipped [OF e])
  qed
qed

lemma firstSkipped_noneSkipped:
  "\<not> noneSkipped (firstSkipped kind u l)"
  by (cases kind) (auto simp: noneSkipped_def)

lemma firstSkipped_newBaseState:
  "laterHeadsNull kind l \<Longrightarrow>
   newBaseState (firstSkipped kind u l) = (if noneSkipped l then resultState l else newBaseState l)"
  by (cases kind) (auto simp: noneSkipped_def)

lemma firstSkipped_laterHeadsNull:
  "laterHeadsNull kind l \<Longrightarrow> laterHeadsNull kind (firstSkipped kind u l)"
  by (cases kind) auto

lemma laterHeadsNull_remaining [simp]:
  "laterHeadsNull kind (remainingExpirationTime t l) = laterHeadsNull kind l"
  by (cases kind) simp_all

lemma noneSkipped_remaining [simp]:
  "noneSkipped (remainingExpirationTime t l) = noneSkipped l"
  by (simp add: noneSkipped_def)

lemma laterHeadsNull_result [simp]:
  "laterHeadsNull kind (l\<lparr>resultState := s\<rparr>) = laterHeadsNull kind l"
  by (cases kind) simp_all

lemma noneSkipped_result [simp]:
  "noneSkipped (l\<lparr>resultState := s\<rparr>) = noneSkipped l"
  by (simp add: noneSkipped_def)

text \<open>The new base state after a loop.\<close>
lemma visitAll_newBaseState:
  "loopKeeps w q h0 h \<Longrightarrow> laterHeadsNull kind l \<Longrightarrow>
   newBaseState (fst (visitAll kind P w q us (l, h)))
     = (if noneSkipped l \<and> \<not> list_all (eligible P h0) us
        then snd (applyUpdates h0 (takeWhile (eligible P h0) us) (fibers h w, resultState l))
        else newBaseState l)
   \<and> noneSkipped (fst (visitAll kind P w q us (l, h)))
       = (noneSkipped l \<and> list_all (eligible P h0) us)
   \<and> laterHeadsNull kind (fst (visitAll kind P w q us (l, h)))"
proof (induction us arbitrary: l h)
  case Nil
  then show ?case by simp
next
  case (Cons u us)
  note k = Cons.prems(1) and lh = Cons.prems(2)
  show ?case
  proof (cases "eligible P h0 u")
    case True
    with k have e: "eligible P h u" by (simp add: loopKeeps_eligible)
    obtain l1 h1 where v: "visitUpdate kind P w q u (l, h) = (l1, h1)" by fastforce
    from k have k1: "loopKeeps w q h0 h1"
      using loopKeeps_visitUpdate [of w q h0 "(l, h)" kind P u] v by simp
    have l1: "l1 = l\<lparr>resultState := snd (applyUpdate h0 (fibers h w, resultState l) u)\<rparr>"
      and f1: "fibers h1 w = fst (applyUpdate h0 (fibers h w, resultState l) u)"
      using visitUpdate_eligible [OF e, of kind w q l] v loopKeeps_applyUpdate [OF k] by simp_all
    then have p: "(fibers h1 w, resultState l1) = applyUpdate h0 (fibers h w, resultState l) u"
      by (simp add: prod_eq_iff)
    from lh l1 have "laterHeadsNull kind l1" by simp
    from Cons.IH [OF k1 this] show ?thesis
      using True v p l1 by simp
  next
    case False
    with k have e: "\<not> eligible P h u" by (simp add: loopKeeps_eligible)
    let ?l1 = "remainingExpirationTime (expirationTime (updates h u)) (firstSkipped kind u l)"
    have "laterHeadsNull kind ?l1" using lh by (simp add: firstSkipped_laterHeadsNull)
    from Cons.IH [OF k this] show ?thesis
      using False lh
      by (simp add: visitUpdate_skipped [OF e] firstSkipped_noneSkipped firstSkipped_newBaseState)
  qed
qed

lemma processUpdateQueue_lists:
  assumes slow: "\<not> (qExpirationTime (queues h q0) = NoWork \<or> qExpirationTime (queues h q0) > P)"
    and ens: "ensureWorkInProgressQueueIsAClone w q0 h = (q, h0)"
    and xs: "persistentList h0 q xs"
    and ys: "renderPhaseList h0 q ys"
    and zs: "capturedList h0 q zs"
  shows "processUpdateQueue w q0 P h
           = Some (storeResult w q (fst (threeLoops P w q xs ys zs (initialLocals h0 q, h0)))
                     (snd (threeLoops P w q xs ys zs (initialLocals h0 q, h0))))"
proof -
  let ?st0 = "(initialLocals h0 q, h0)"
  let ?st1 = "visitAll Persistent P w q xs ?st0"
  let ?st2 = "visitAll RenderPhase P w q ys ?st1"
  let ?st3 = "visitAll Captured P w q zs ?st2"
  have k1: "loopKeeps w q h0 (snd ?st1)" by (rule loopKeeps_visitAll) simp
  then have k2: "loopKeeps w q h0 (snd ?st2)" by (rule loopKeeps_visitAll)
  have w1: "walkUpdates Persistent P w q (firstUpdate (queues h0 q)) ?st0 = Some ?st1"
    using xs by (intro walkUpdates_visitAll) (simp add: persistentList_def)
  have w2: "walkUpdates RenderPhase P w q (firstRenderPhaseUpdate (queues (snd ?st1) q)) ?st1
              = Some ?st2"
    using ys by (intro walkUpdates_visitAll)
      (simp add: renderPhaseList_def loopKeeps_queue [OF k1] loopKeeps_nextOf [OF k1])
  have w3: "walkUpdates Captured P w q (firstCapturedUpdate (queues (snd ?st2) q)) ?st2
              = Some ?st3"
    using zs by (intro walkUpdates_visitAll)
      (simp add: capturedList_def loopKeeps_queue [OF k2] loopKeeps_nextOf [OF k2])
  show ?thesis
    using slow ens w1 w2 w3
    by (simp add: processUpdateQueue_def threeLoops_def initialLocals_def)
qed

lemma threeLoops_keeps:
  "loopKeeps w q h0 (snd st) \<Longrightarrow> loopKeeps w q h0 (snd (threeLoops P w q xs ys zs st))"
  unfolding threeLoops_def by (intro loopKeeps_visitAll)

lemma threeLoops_result:
  assumes "loopKeeps w q h0 h"
  shows "(fibers (snd (threeLoops P w q xs ys zs (l, h))) w,
          resultState (fst (threeLoops P w q xs ys zs (l, h))))
           = applyUpdates h0 (filter (eligible P h0) (xs @ ys @ zs)) (fibers h w, resultState l)"
proof -
  obtain l1 h1 where s1: "visitAll Persistent P w q xs (l, h) = (l1, h1)" by fastforce
  obtain l2 h2 where s2: "visitAll RenderPhase P w q ys (l1, h1) = (l2, h2)" by fastforce
  have k1: "loopKeeps w q h0 h1"
    using loopKeeps_visitAll [of w q h0 "(l, h)" Persistent P xs] assms s1 by simp
  have k2: "loopKeeps w q h0 h2"
    using loopKeeps_visitAll [of w q h0 "(l1, h1)" RenderPhase P ys] k1 s2 by simp
  show ?thesis
    using visitAll_result [OF assms, of Persistent P xs l]
      visitAll_result [OF k1, of RenderPhase P ys l1]
      visitAll_result [OF k2, of Captured P zs l2] s1 s2
    by (simp add: threeLoops_def)
qed

lemma takeWhile_all: "list_all p xs \<Longrightarrow> takeWhile p (xs @ ys) = xs @ takeWhile p ys"
  by (induction xs) auto

lemma takeWhile_not_all: "\<not> list_all p xs \<Longrightarrow> takeWhile p (xs @ ys) = takeWhile p xs"
  by (induction xs) auto

lemma filter_all: "list_all p xs \<Longrightarrow> filter p xs = xs"
  by (induction xs) auto

lemma threeLoops_newBaseState:
  assumes k: "loopKeeps w q h0 h" and l: "laterHeadsNull Persistent l" and n: "noneSkipped l"
  shows "newBaseState (fst (threeLoops P w q xs ys zs (l, h)))
           = (if list_all (eligible P h0) (xs @ ys @ zs) then newBaseState l
              else snd (applyUpdates h0 (takeWhile (eligible P h0) (xs @ ys @ zs))
                          (fibers h w, resultState l)))"
    and "noneSkipped (fst (threeLoops P w q xs ys zs (l, h)))
           = list_all (eligible P h0) (xs @ ys @ zs)"
proof -
  obtain l1 h1 where s1: "visitAll Persistent P w q xs (l, h) = (l1, h1)" by fastforce
  obtain l2 h2 where s2: "visitAll RenderPhase P w q ys (l1, h1) = (l2, h2)" by fastforce
  obtain l3 h3 where s3: "visitAll Captured P w q zs (l2, h2) = (l3, h3)" by fastforce
  have k1: "loopKeeps w q h0 h1"
    using loopKeeps_visitAll [of w q h0 "(l, h)" Persistent P xs] k s1 by simp
  have k2: "loopKeeps w q h0 h2"
    using loopKeeps_visitAll [of w q h0 "(l1, h1)" RenderPhase P ys] k1 s2 by simp
  note b1 = visitAll_newBaseState [OF k l, of P xs, unfolded s1, simplified]
  from b1 have lh1: "laterHeadsNull RenderPhase l1" by simp
  note b2 = visitAll_newBaseState [OF k1 lh1, of P ys, unfolded s2, simplified]
  have lh2: "laterHeadsNull Captured l2" by simp
  note b3 = visitAll_newBaseState [OF k2 lh2, of P zs, unfolded s3, simplified]
  note r1 = visitAll_result [OF k, of Persistent P xs l, unfolded s1, simplified]
  note r2 = visitAll_result [OF k1, of RenderPhase P ys l1, unfolded s2, simplified]
  have t: "threeLoops P w q xs ys zs (l, h) = (l3, h3)"
    using s1 s2 s3 by (simp add: threeLoops_def)
  show "noneSkipped (fst (threeLoops P w q xs ys zs (l, h)))
           = list_all (eligible P h0) (xs @ ys @ zs)"
    using b1 b2 b3 n t by simp
  show "newBaseState (fst (threeLoops P w q xs ys zs (l, h)))
           = (if list_all (eligible P h0) (xs @ ys @ zs) then newBaseState l
              else snd (applyUpdates h0 (takeWhile (eligible P h0) (xs @ ys @ zs))
                          (fibers h w, resultState l)))"
  proof (cases "list_all (eligible P h0) xs")
    case False
    then show ?thesis using b1 b2 b3 n t by (simp add: takeWhile_not_all)
  next
    case x: True
    then have f1: "(fibers h1 w, resultState l1) = applyUpdates h0 xs (fibers h w, resultState l)"
      using r1 by (simp add: filter_all)
    show ?thesis
    proof (cases "list_all (eligible P h0) ys")
      case False
      then show ?thesis
        using b1 b2 b3 n t x f1 by (simp add: takeWhile_all takeWhile_not_all)
    next
      case y: True
      then have f2: "(fibers h2 w, resultState l2)
                       = applyUpdates h0 (xs @ ys) (fibers h w, resultState l)"
        using r2 f1 by (simp add: filter_all)
      show ?thesis
        using b1 b2 b3 n t x y f2 by (simp add: takeWhile_all)
    qed
  qed
qed

lemma storeResult_baseState:
  "baseState (queues (storeResult w q l h) q)
     = (if noneSkipped l then resultState l else newBaseState l)"
  "memoizedState (fibers (storeResult w q l h) w) = resultState l"
  by (simp_all add: storeResult_def Let_def noneSkipped_def)

lemma takeWhile_eq_all: "list_all p xs \<Longrightarrow> takeWhile p xs = xs"
  by (induction xs) auto

text \<open>
  C6. A run of \<open>processUpdateQueue\<close> that goes through the lists \<open>xs\<close> (persistent), \<open>ys\<close>
  (render phase) and \<open>zs\<close> (captured) stores as base state the running result at the first
  skipped update of \<open>xs @ ys @ zs\<close>, that is the state after the updates before it have
  been applied, whichever list the skipped update is in; later skips do not change it.
  The memoized state is the state after all eligible updates have been applied, and when
  no update is skipped the stored base state is that final result.
\<close>
theorem baseState_at_first_skipped:
  assumes slow: "\<not> (qExpirationTime (queues h q0) = NoWork \<or> qExpirationTime (queues h q0) > P)"
    and ens: "ensureWorkInProgressQueueIsAClone w q0 h = (q, h0)"
    and xs: "persistentList h0 q xs"
    and ys: "renderPhaseList h0 q ys"
    and zs: "capturedList h0 q zs"
  shows "\<exists>h'. processUpdateQueue w q0 P h = Some h'
          \<and> baseState (queues h' q)
              = snd (applyUpdates h0 (takeWhile (eligible P h0) (xs @ ys @ zs))
                       (fibers h0 w, baseState (queues h0 q)))
          \<and> memoizedState (fibers h' w)
              = snd (applyUpdates h0 (filter (eligible P h0) (xs @ ys @ zs))
                       (fibers h0 w, baseState (queues h0 q)))
          \<and> (list_all (eligible P h0) (xs @ ys @ zs)
               \<longrightarrow> baseState (queues h' q) = memoizedState (fibers h' w))"
proof -
  let ?st = "threeLoops P w q xs ys zs (initialLocals h0 q, h0)"
  let ?h' = "storeResult w q (fst ?st) (snd ?st)"
  have run: "processUpdateQueue w q0 P h = Some ?h'"
    using slow ens xs ys zs by (rule processUpdateQueue_lists)
  have k: "loopKeeps w q h0 h0" by simp
  have l: "laterHeadsNull Persistent (initialLocals h0 q)"
    and n: "noneSkipped (initialLocals h0 q)"
    by (simp_all add: initialLocals_def noneSkipped_def)
  note b = threeLoops_newBaseState [OF k l n, of P xs ys zs]
  have r: "resultState (fst ?st)
             = snd (applyUpdates h0 (filter (eligible P h0) (xs @ ys @ zs))
                      (fibers h0 w, baseState (queues h0 q)))"
    using threeLoops_result [OF k, of P xs ys zs "initialLocals h0 q"]
    by (simp add: prod_eq_iff initialLocals_def)
  have m: "memoizedState (fibers ?h' w)
             = snd (applyUpdates h0 (filter (eligible P h0) (xs @ ys @ zs))
                      (fibers h0 w, baseState (queues h0 q)))"
    using r by (simp add: storeResult_baseState)
  have bs: "baseState (queues ?h' q)
              = snd (applyUpdates h0 (takeWhile (eligible P h0) (xs @ ys @ zs))
                       (fibers h0 w, baseState (queues h0 q)))"
  proof (cases "list_all (eligible P h0) (xs @ ys @ zs)")
    case True
    have f: "filter (eligible P h0) (xs @ ys @ zs) = xs @ ys @ zs"
      using True by (rule filter_all)
    have t: "takeWhile (eligible P h0) (xs @ ys @ zs) = xs @ ys @ zs"
      using True by (rule takeWhile_eq_all)
    show ?thesis
      unfolding t using b True r [unfolded f]
      by (simp add: storeResult_baseState del: list_all_append)
  next
    case False
    then show ?thesis
      using b by (simp add: storeResult_baseState initialLocals_def del: list_all_append)
  qed
  have "list_all (eligible P h0) (xs @ ys @ zs)
          \<longrightarrow> baseState (queues ?h' q) = memoizedState (fibers ?h' w)"
    using b by (simp add: storeResult_baseState del: list_all_append)
  with run m bs show ?thesis by blast
qed

lemmas threeLists_simps =
  threeListsStore_def enqueueCapturedUpdate_def enqueueRenderPhaseUpdate_def
  workInProgressQueue_def initialStore_def appendLetters_def store_simps
  renderPhaseList_def capturedList_def persistentList_def nextOf_def

lemma threeLists_facts:
  "\<not> (qExpirationTime (queues threeListsStore 0) = NoWork
       \<or> qExpirationTime (queues threeListsStore 0) > 1)"
  "ensureWorkInProgressQueueIsAClone 0 0 threeListsStore = (0, threeListsStore)"
  "persistentList threeListsStore 0 [1]"
  "renderPhaseList threeListsStore 0 [2, 3]"
  "capturedList threeListsStore 0 [4, 5]"
  by (simp_all add: threeLists_simps)

lemma threeLists_values:
  "snd (applyUpdates threeListsStore (takeWhile (eligible 1 threeListsStore) ([1] @ [2, 3] @ [4, 5]))
          (fibers threeListsStore 0, baseState (queues threeListsStore 0))) = ''AB''"
  "snd (applyUpdates threeListsStore (filter (eligible 1 threeListsStore) ([1] @ [2, 3] @ [4, 5]))
          (fibers threeListsStore 0, baseState (queues threeListsStore 0))) = ''ABE''"
  by (simp_all add: threeLists_simps eligible_def applyUpdate_def)

theorem baseState_at_first_skipped_witness:
  "\<not> (qExpirationTime (queues threeListsStore 0) = NoWork
       \<or> qExpirationTime (queues threeListsStore 0) > 1)
   \<and> ensureWorkInProgressQueueIsAClone 0 0 threeListsStore = (0, threeListsStore)
   \<and> persistentList threeListsStore 0 [1]
   \<and> renderPhaseList threeListsStore 0 [2, 3]
   \<and> capturedList threeListsStore 0 [4, 5]
   \<and> processUpdateQueue 0 0 1 threeListsStore \<noteq> None
   \<and> baseState (queues (the (processUpdateQueue 0 0 1 threeListsStore)) 0) = ''AB''
   \<and> memoizedState (fibers (the (processUpdateQueue 0 0 1 threeListsStore)) 0) = ''ABE''"
  using baseState_at_first_skipped [OF threeLists_facts] threeLists_facts threeLists_values
  by auto

section \<open>The effect list and the commit callbacks\<close>

lemma firedBy_simps [simp]:
  "firedBy h fw [] = []"
  "firedBy h fw (e # es) =
     (case commit (updates h e) of Some c \<Rightarrow> [(c, fw)] | None \<Rightarrow> []) @ firedBy h fw es"
  "firedBy h fw (es @ es') = firedBy h fw es @ firedBy h fw es'"
  by (simp_all add: firedBy_def)

lemma firedBy_cong:
  "(\<And>e. e \<in> set es \<Longrightarrow> commit (updates h e) = commit (updates h' e))
     \<Longrightarrow> firedBy h fw es = firedBy h' fw es"
  by (induction es) auto

lemma addToEffectList_effectsAre:
  assumes es: "effectsAre h q es" and u: "u \<notin> set es"
  shows "effectsAre (addToEffectList q u h) q (es @ [u])"
proof -
  let ?nx = "nextEffectOf h"
  let ?nx1 = "(nextEffectOf h)(u := None)"
  have n1: "nextEffectOf (setUpdate u (\<lambda>u. u\<lparr>nextEffect := None\<rparr>) h) = ?nx1"
    by (simp add: nextEffectOf_def fun_eq_iff)
  from es have l: "linked ?nx (firstEffect (queues h q)) es"
    and la: "lastEffect (queues h q) = (if es = [] then None else Some (last es))"
    by (simp_all add: effectsAre_def effectList_def)
  from l u have l1: "linked ?nx1 (firstEffect (queues h q)) es"
    by (simp add: linked_upd_other)
  show ?thesis
  proof (cases "es = []")
    case True
    with la l show ?thesis
      by (simp add: addToEffectList_def effectsAre_def effectList_def nextEffectOf_def)
  next
    case False
    have "linked ?nx1 (Some u) [u]" by simp
    with False l1 u have "linked (?nx1(last es := Some u)) (firstEffect (queues h q)) (es @ [u])"
      by (intro linked_join) auto
    moreover have "nextEffectOf (addToEffectList q u h) = ?nx1(last es := Some u)"
      using False la by (simp add: addToEffectList_def nextEffectOf_def fun_eq_iff)
    moreover have "firstEffect (queues (addToEffectList q u h) q) = firstEffect (queues h q)"
      "lastEffect (queues (addToEffectList q u h) q) = Some u"
      using False la by (simp_all add: addToEffectList_def)
    ultimately show ?thesis by (simp add: effectsAre_def effectList_def)
  qed
qed

lemma nextEffectOf_upd_simps [simp]:
  "nextEffectOf (setQueue q f h) = nextEffectOf h"
  "nextEffectOf (setFiber w g h) = nextEffectOf h"
  by (simp_all add: nextEffectOf_def fun_eq_iff)

lemma effectsAre_setFiber [simp]:
  "effectsAre (setFiber w g h) q es = effectsAre h q es"
  by (simp add: effectsAre_def effectList_def)

lemma visitUpdate_effectsAre:
  assumes "effectsAre h q es" and "u \<notin> set es"
  shows "effectsAre (snd (visitUpdate kind P w q u (l, h))) q
           (if hasEffect P h u then es @ [u] else es)"
proof (cases "hasEffect P h u")
  case True
  then show ?thesis
    using addToEffectList_effectsAre
      [of "setFiber w (\<lambda>f. f\<lparr>effectTag := effectTag f OR UpdateQueueEffect\<rparr>) h" q es u] assms
    by (auto simp: hasEffect_def eligible_def visitUpdate_def processSingleUpdate_def Let_def
        split: option.splits)
next
  case False
  then show ?thesis
    using assms
    by (auto simp: hasEffect_def eligible_def visitUpdate_def processSingleUpdate_def Let_def
        split: option.splits)
qed

lemma loopKeeps_hasEffect:
  "loopKeeps w q h0 h \<Longrightarrow> hasEffect P h u = hasEffect P h0 u"
  by (simp add: hasEffect_def loopKeeps_eligible) (simp add: loopKeeps_def)

lemma visitAll_effectsAre:
  "loopKeeps w q h0 h \<Longrightarrow> effectsAre h q es \<Longrightarrow> distinct us \<Longrightarrow> set us \<inter> set es = {}
     \<Longrightarrow> effectsAre (snd (visitAll kind P w q us (l, h))) q (es @ filter (hasEffect P h0) us)"
proof (induction us arbitrary: l h es)
  case Nil
  then show ?case by simp
next
  case (Cons u us)
  obtain l1 h1 where v: "visitUpdate kind P w q u (l, h) = (l1, h1)" by fastforce
  from Cons.prems(1) have k1: "loopKeeps w q h0 h1"
    using loopKeeps_visitUpdate [of w q h0 "(l, h)" kind P u] v by simp
  let ?es1 = "if hasEffect P h0 u then es @ [u] else es"
  from Cons.prems have "u \<notin> set es" by auto
  with Cons.prems(2) have e1: "effectsAre h1 q ?es1"
    using visitUpdate_effectsAre [of h q es u kind P w l] v loopKeeps_hasEffect [OF Cons.prems(1)]
    by simp
  from Cons.prems have "distinct us" "set us \<inter> set ?es1 = {}" by auto
  from Cons.IH [OF k1 e1 this, of l1] show ?case using v by (auto split: if_splits)
qed

lemma threeLoops_effectsAre:
  assumes k: "loopKeeps w q h0 h" and e: "effectsAre h q []" and d: "distinct (xs @ ys @ zs)"
  shows "effectsAre (snd (threeLoops P w q xs ys zs (l, h))) q
           (filter (hasEffect P h0) (xs @ ys @ zs))"
proof -
  obtain l1 h1 where s1: "visitAll Persistent P w q xs (l, h) = (l1, h1)" by fastforce
  obtain l2 h2 where s2: "visitAll RenderPhase P w q ys (l1, h1) = (l2, h2)" by fastforce
  have k1: "loopKeeps w q h0 h1"
    using loopKeeps_visitAll [of w q h0 "(l, h)" Persistent P xs] k s1 by simp
  have k2: "loopKeeps w q h0 h2"
    using loopKeeps_visitAll [of w q h0 "(l1, h1)" RenderPhase P ys] k1 s2 by simp
  from d have dx: "distinct xs" and dy: "distinct ys" and dz: "distinct zs" by auto
  have e1: "effectsAre h1 q ([] @ filter (hasEffect P h0) xs)"
    using visitAll_effectsAre [OF k e dx, of Persistent P l] s1 by simp
  have "set ys \<inter> set ([] @ filter (hasEffect P h0) xs) = {}" using d by auto
  from visitAll_effectsAre [OF k1 e1 dy this, of RenderPhase P l1]
  have e2: "effectsAre h2 q (filter (hasEffect P h0) xs @ filter (hasEffect P h0) ys)"
    using s2 by simp
  have "set zs \<inter> set (filter (hasEffect P h0) xs @ filter (hasEffect P h0) ys) = {}"
    using d by auto
  from visitAll_effectsAre [OF k2 e2 dz this, of Captured P l2]
  show ?thesis using s1 s2 by (simp add: threeLoops_def)
qed

lemma storeResult_effectsAre [simp]:
  "effectsAre (storeResult w q l h) q es = effectsAre h q es"
  by (simp add: effectsAre_def effectList_def storeResult_def Let_def)

lemma commitEffects_linked:
  "linked (nextEffectOf h) p es \<Longrightarrow>
   commitEffects fw p h
     = Some (h\<lparr>updates := (\<lambda>r. if r \<in> set es then (updates h r)\<lparr>commit := None\<rparr> else updates h r),
               fired := fired h @ firedBy h fw es\<rparr>)"
proof (induction es arbitrary: p h)
  case Nil
  then show ?case by (simp add: commitEffects.simps)
next
  case (Cons e es)
  then have p: "p = Some e" and l: "linked (nextEffectOf h) (nextEffectOf h e) es" by auto
  from l have ne: "e \<notin> set es" by (rule linked_not_in_tail)
  show ?case
  proof (cases "commit (updates h e)")
    case None
    have "(\<lambda>r. if r \<in> set es then (updates h r)\<lparr>commit := None\<rparr> else updates h r)
            = (\<lambda>r. if r \<in> set (e # es) then (updates h r)\<lparr>commit := None\<rparr> else updates h r)"
      using None by (auto simp: fun_eq_iff)
    then show ?thesis
      using p None Cons.IH [OF l]
      by (subst commitEffects.simps) (simp add: nextEffectOf_def [symmetric])
  next
    case (Some c)
    let ?h1 = "(setUpdate e (\<lambda>u. u\<lparr>commit := None\<rparr>) h)\<lparr>fired := fired h @ [(c, fw)]\<rparr>"
    have n1: "nextEffectOf ?h1 = nextEffectOf h"
      by (simp add: nextEffectOf_def fun_eq_iff)
    with l have "linked (nextEffectOf ?h1) (nextEffectOf h e) es" by simp
    from Cons.IH [OF this]
    have "commitEffects fw (nextEffectOf h e) ?h1
            = Some (?h1\<lparr>updates := (\<lambda>r. if r \<in> set es then (updates ?h1 r)\<lparr>commit := None\<rparr>
                                        else updates ?h1 r),
                         fired := fired ?h1 @ firedBy ?h1 fw es\<rparr>)" .
    moreover have "firedBy ?h1 fw es = firedBy h fw es"
      using ne by (intro firedBy_cong) auto
    moreover have "(\<lambda>r. if r \<in> set es then (updates ?h1 r)\<lparr>commit := None\<rparr> else updates ?h1 r)
            = (\<lambda>r. if r \<in> set (e # es) then (updates h r)\<lparr>commit := None\<rparr> else updates h r)"
      by (auto simp: fun_eq_iff)
    ultimately show ?thesis
      using p Some
      by (subst commitEffects.simps) (simp add: nextEffectOf_def [symmetric] setUpdate_def)
  qed
qed

lemma join_keeps:
  "nextEffectOf (joinRenderPhaseUpdates q h) = nextEffectOf h"
  "nextEffectOf (joinCapturedUpdates q h) = nextEffectOf h"
  "commit (updates (joinRenderPhaseUpdates q h) r) = commit (updates h r)"
  "commit (updates (joinCapturedUpdates q h) r) = commit (updates h r)"
  "firstEffect (queues (joinRenderPhaseUpdates q h) q') = firstEffect (queues h q')"
  "firstEffect (queues (joinCapturedUpdates q h) q') = firstEffect (queues h q')"
  "fired (joinRenderPhaseUpdates q h) = fired h"
  "fired (joinCapturedUpdates q h) = fired h"
  by (auto simp: joinRenderPhaseUpdates_def joinCapturedUpdates_def nextEffectOf_def fun_eq_iff
      split: option.splits)

lemma commitUpdateQueue_effects:
  assumes "effectList h q es"
  shows "commitUpdateQueue fw q P h \<noteq> None"
    and "fired (the (commitUpdateQueue fw q P h)) = fired h @ firedBy h fw es"
    and "commit (updates (the (commitUpdateQueue fw q P h)) r)
           = (if r \<in> set es then None else commit (updates h r))"
    and "firstEffect (queues (the (commitUpdateQueue fw q P h)) q) = None"
    and "lastEffect (queues (the (commitUpdateQueue fw q P h)) q) = None"
proof -
  let ?h1 = "joinCapturedUpdates q (joinRenderPhaseUpdates q h)"
  let ?h2 = "setQueue q (\<lambda>q. q\<lparr>firstEffect := None, lastEffect := None\<rparr>) ?h1"
  have "linked (nextEffectOf ?h2) (firstEffect (queues ?h1 q)) es"
    using assms by (simp add: effectList_def join_keeps)
  from commitEffects_linked [OF this, of fw]
  have c: "commitUpdateQueue fw q P h
         = Some (?h2\<lparr>updates := (\<lambda>r. if r \<in> set es then (updates ?h2 r)\<lparr>commit := None\<rparr>
                                      else updates ?h2 r),
                      fired := fired ?h2 @ firedBy ?h2 fw es\<rparr>)"
    by (simp add: commitUpdateQueue_def Let_def)
  have f: "firedBy ?h2 fw es = firedBy h fw es"
    by (rule firedBy_cong) (simp add: join_keeps)
  show "commitUpdateQueue fw q P h \<noteq> None" using c by simp
  show "fired (the (commitUpdateQueue fw q P h)) = fired h @ firedBy h fw es"
    using c f by (simp add: join_keeps)
  show "commit (updates (the (commitUpdateQueue fw q P h)) r)
           = (if r \<in> set es then None else commit (updates h r))"
    using c by (simp add: join_keeps)
  show "firstEffect (queues (the (commitUpdateQueue fw q P h)) q) = None"
    "lastEffect (queues (the (commitUpdateQueue fw q P h)) q) = None"
    using c by simp_all
qed

lemma firedBy_hasEffect:
  "firedBy h fw (filter (hasEffect P h) us) = firedBy h fw (filter (eligible P h) us)"
  by (induction us) (auto simp: hasEffect_def)

lemma processSingleUpdate_no_commit:
  "commit (updates h u) = None \<Longrightarrow> snd (processSingleUpdate w q u s h) = h"
  by (simp add: processSingleUpdate_def Let_def split: option.splits)

text \<open>
  C3 (amended). Let a run of \<open>processUpdateQueue\<close> go through the lists of a queue whose
  effect list is empty when the run starts, the three lists being null-terminated with no
  update in two of them. The run fires nothing. \<open>commitUpdateQueue\<close> after it calls the
  commit callbacks of the updates that the run processed, each once, in the order
  persistent list, render phase list, captured list, and in each list in the order of
  enqueueing. It clears the commit field of each update it fires and leaves the others,
  so a skipped update still has its callback, and processing a fired update again
  changes nothing: it is not put on an effect list a second time.
\<close>
theorem commit_callbacks_once_in_order:
  assumes slow: "\<not> (qExpirationTime (queues h q0) = NoWork \<or> qExpirationTime (queues h q0) > P)"
    and ens: "ensureWorkInProgressQueueIsAClone w q0 h = (q, h0)"
    and xs: "persistentList h0 q xs"
    and ys: "renderPhaseList h0 q ys"
    and zs: "capturedList h0 q zs"
    and d: "distinct (xs @ ys @ zs)"
    and e: "firstEffect (queues h0 q) = None" "lastEffect (queues h0 q) = None"
  shows "\<exists>h1 h2. processUpdateQueue w q0 P h = Some h1 \<and> fired h1 = fired h
           \<and> commitUpdateQueue w q P h1 = Some h2
           \<and> fired h2 = fired h @ firedBy h w (filter (eligible P h) (xs @ ys @ zs))
           \<and> (\<forall>u. commit (updates h2 u)
                    = (if u \<in> set (filter (hasEffect P h) (xs @ ys @ zs)) then None
                       else commit (updates h u)))
           \<and> (\<forall>u s w' q'. commit (updates h2 u) = None
                    \<longrightarrow> snd (processSingleUpdate w' q' u s h2) = h2)"
proof -
  let ?st = "threeLoops P w q xs ys zs (initialLocals h0 q, h0)"
  let ?h1 = "storeResult w q (fst ?st) (snd ?st)"
  let ?es = "filter (hasEffect P h0) (xs @ ys @ zs)"
  have u0: "updates h0 = updates h" and f0: "fired h0 = fired h"
    using ensure_keeps [OF ens] by simp_all
  have run: "processUpdateQueue w q0 P h = Some ?h1"
    using slow ens xs ys zs by (rule processUpdateQueue_lists)
  have k: "loopKeeps w q h0 (snd ?st)" by (rule threeLoops_keeps) simp
  have e0: "effectsAre h0 q []" using e by (simp add: effectsAre_def effectList_def)
  have "effectsAre (snd ?st) q ?es"
    using threeLoops_effectsAre [OF _ e0 d, of w h0 P "initialLocals h0 q"] by simp
  then have "effectsAre ?h1 q ?es" by (simp only: storeResult_effectsAre)
  then have el: "effectList ?h1 q ?es" unfolding effectsAre_def by (rule conjunct1)
  have c1: "\<And>r. commit (updates ?h1 r) = commit (updates h r)"
    using loopKeeps_storeResult [OF k, of "fst ?st"] u0 by simp
  have fi1: "fired ?h1 = fired h"
    using loopKeeps_storeResult [OF k, of "fst ?st"] f0 by simp
  have he: "hasEffect P h0 = hasEffect P h" and el0: "eligible P h0 = eligible P h"
    using u0 by (simp_all add: hasEffect_def eligible_def fun_eq_iff)
  note ce = commitUpdateQueue_effects [OF el, of w P]
  let ?h2 = "the (commitUpdateQueue w q P ?h1)"
  have "firedBy ?h1 w ?es = firedBy h w ?es"
    by (rule firedBy_cong) (simp add: c1)
  then have fi2: "fired ?h2 = fired h @ firedBy h w (filter (eligible P h) (xs @ ys @ zs))"
    using ce(2) fi1 firedBy_hasEffect [of h w P "xs @ ys @ zs"] he by simp
  have c2: "\<forall>u. commit (updates ?h2 u)
                    = (if u \<in> set (filter (hasEffect P h) (xs @ ys @ zs)) then None
                       else commit (updates h u))"
    using ce(3) c1 he by simp
  have cq: "commitUpdateQueue w q P ?h1 = Some ?h2" using ce(1) by simp
  have np: "\<forall>u s w' q'. commit (updates ?h2 u) = None
                    \<longrightarrow> snd (processSingleUpdate w' q' u s ?h2) = ?h2"
    by (simp add: processSingleUpdate_no_commit)
  show ?thesis
  proof (intro exI conjI)
    show "processUpdateQueue w q0 P h = Some ?h1" by (fact run)
    show "fired ?h1 = fired h" by (fact fi1)
    show "commitUpdateQueue w q P ?h1 = Some ?h2" by (fact cq)
    show "fired ?h2 = fired h @ firedBy h w (filter (eligible P h) (xs @ ys @ zs))"
      by (fact fi2)
    show "\<forall>u. commit (updates ?h2 u)
                    = (if u \<in> set (filter (hasEffect P h) (xs @ ys @ zs)) then None
                       else commit (updates h u))" by (fact c2)
    show "\<forall>u s w' q'. commit (updates ?h2 u) = None
                    \<longrightarrow> snd (processSingleUpdate w' q' u s ?h2) = ?h2" by (fact np)
  qed
qed

lemmas callbackLetters_simps =
  callbackLettersStore_def sharedQueueStore_def callbackUpdate_def initialStore_def store_simps
  renderPhaseList_def capturedList_def persistentList_def nextOf_def

lemma callbackLetters_facts:
  "\<not> (qExpirationTime (queues callbackLettersStore 0) = NoWork
       \<or> qExpirationTime (queues callbackLettersStore 0) > 1)"
  "ensureWorkInProgressQueueIsAClone 1 0 callbackLettersStore
     = (1, snd (ensureWorkInProgressQueueIsAClone 1 0 callbackLettersStore))"
  "persistentList (snd (ensureWorkInProgressQueueIsAClone 1 0 callbackLettersStore)) 1 [1, 2, 3, 4]"
  "renderPhaseList (snd (ensureWorkInProgressQueueIsAClone 1 0 callbackLettersStore)) 1 []"
  "capturedList (snd (ensureWorkInProgressQueueIsAClone 1 0 callbackLettersStore)) 1 []"
  "distinct ([1, 2, 3, 4] @ [] @ [] :: nat list)"
  "firstEffect (queues (snd (ensureWorkInProgressQueueIsAClone 1 0 callbackLettersStore)) 1) = None"
  "lastEffect (queues (snd (ensureWorkInProgressQueueIsAClone 1 0 callbackLettersStore)) 1) = None"
  by (simp_all add: callbackLetters_simps)

lemma callbackLetters_fired:
  "fired callbackLettersStore = []"
  "firedBy callbackLettersStore 1 (filter (eligible 1 callbackLettersStore) ([1, 2, 3, 4] @ [] @ []))
     = [(''A'', 1), (''C'', 1)]"
  by (simp_all add: callbackLetters_simps eligible_def)

theorem commit_callbacks_once_in_order_witness:
  "\<not> (qExpirationTime (queues callbackLettersStore 0) = NoWork
       \<or> qExpirationTime (queues callbackLettersStore 0) > 1)
   \<and> persistentList (snd (ensureWorkInProgressQueueIsAClone 1 0 callbackLettersStore)) 1 [1, 2, 3, 4]
   \<and> processUpdateQueue 1 0 1 callbackLettersStore \<noteq> None
   \<and> commitUpdateQueue 1 1 1 (the (processUpdateQueue 1 0 1 callbackLettersStore)) \<noteq> None
   \<and> fired (the (commitUpdateQueue 1 1 1 (the (processUpdateQueue 1 0 1 callbackLettersStore))))
       = [(''A'', 1), (''C'', 1)]"
  using commit_callbacks_once_in_order [OF callbackLetters_facts] callbackLetters_facts(1,3)
    callbackLetters_fired
  by auto

text \<open>
  Two renders of the callback example, each followed by its commit: the first, at
  priority 1, fires A and C; the second, at priority 2, processes B, C and D and fires
  B and D only.
\<close>
lemma callbackLetters_two_passes:
  "map_option fired
     (Option.bind (Option.bind (Option.bind (processUpdateQueue 1 0 1 callbackLettersStore)
        (commitUpdateQueue 1 1 1)) (processUpdateQueue 1 1 2)) (commitUpdateQueue 1 1 2))
   = Some [(''A'', 1), (''C'', 1), (''B'', 1), (''D'', 1)]"
  by (simp add: callbackLetters_simps process_simps commitUpdateQueue_def
      joinRenderPhaseUpdates_def joinCapturedUpdates_def commitEffects.simps)

lemmas renderPhaseFirst_simps =
  renderPhaseFirstStore_def enqueueRenderPhaseUpdate_def workInProgressQueue_def
  callbackUpdate_def initialStore_def store_simps renderPhaseList_def persistentList_def
  nextOf_def

text \<open>
  C3, as stated, fails. The callbacks are not fired in the order of enqueueing: the render
  phase update R was enqueued before U, and the commit fires U and then R; and of A1, B2,
  C1, D2 a render at priority 1 with its commit and a render at priority 2 with its commit
  fire A, C, B, D. Nor is every callback fired: when the same work-in-progress queue is
  processed at priority 1 and again at priority 2 before the commit, the effect list
  still holds A and C at the second run, and the commit fires A, C and D; B is not fired
  and is in no list any more.
\<close>
theorem commit_callbacks_not_in_enqueue_order:
  "renderPhaseList renderPhaseFirstStore 0 [1]
   \<and> persistentList renderPhaseFirstStore 0 [2]
   \<and> processUpdateQueue 0 0 1 renderPhaseFirstStore \<noteq> None
   \<and> commitUpdateQueue 0 0 1 (the (processUpdateQueue 0 0 1 renderPhaseFirstStore)) \<noteq> None
   \<and> fired (the (commitUpdateQueue 0 0 1 (the (processUpdateQueue 0 0 1 renderPhaseFirstStore))))
       = [(''U'', 0), (''R'', 0)]
   \<and> map_option fired
        (Option.bind (Option.bind (Option.bind (processUpdateQueue 1 0 1 callbackLettersStore)
           (commitUpdateQueue 1 1 1)) (processUpdateQueue 1 1 2)) (commitUpdateQueue 1 1 2))
       = Some [(''A'', 1), (''C'', 1), (''B'', 1), (''D'', 1)]
   \<and> processUpdateQueue 1 0 1 callbackLettersStore \<noteq> None
   \<and> processUpdateQueue 1 1 2 (the (processUpdateQueue 1 0 1 callbackLettersStore)) \<noteq> None
   \<and> commitUpdateQueue 1 1 2
        (the (processUpdateQueue 1 1 2 (the (processUpdateQueue 1 0 1 callbackLettersStore))))
       \<noteq> None
   \<and> fired (the (commitUpdateQueue 1 1 2
        (the (processUpdateQueue 1 1 2 (the (processUpdateQueue 1 0 1 callbackLettersStore))))))
       = [(''A'', 1), (''C'', 1), (''D'', 1)]
   \<and> commit (updates (the (commitUpdateQueue 1 1 2
        (the (processUpdateQueue 1 1 2 (the (processUpdateQueue 1 0 1 callbackLettersStore)))))) 2)
       = Some ''B''
   \<and> persistentList (the (commitUpdateQueue 1 1 2
        (the (processUpdateQueue 1 1 2 (the (processUpdateQueue 1 0 1 callbackLettersStore)))))) 1 []"
  by (simp add: renderPhaseFirst_simps callbackLetters_simps process_simps commit_simps)

section \<open>Joining the lists at commit\<close>

lemma nextOf_setUpdate_nxt:
  "nextOf (setUpdate l (\<lambda>u. u\<lparr>nxt := p\<rparr>) h) = (nextOf h)(l := p)"
  by (simp add: nextOf_def fun_eq_iff)

lemma joinRenderPhaseUpdates_lists:
  assumes xs: "persistentList h q xs"
    and lx: "lastUpdate (queues h q) = (if xs = [] then None else Some (last xs))"
    and ys: "renderPhaseList h q ys"
    and ly: "lastRenderPhaseUpdate (queues h q) = (if ys = [] then None else Some (last ys))"
    and zs: "capturedList h q zs"
    and d: "set xs \<inter> set ys = {}" "set xs \<inter> set zs = {}"
  shows "persistentList (joinRenderPhaseUpdates q h) q (if xs = [] then [] else xs @ ys)"
    and "lastUpdate (queues (joinRenderPhaseUpdates q h) q)
           = (if xs = [] then None else Some (last (xs @ ys)))"
    and "renderPhaseList (joinRenderPhaseUpdates q h) q []"
    and "lastRenderPhaseUpdate (queues (joinRenderPhaseUpdates q h) q) = None"
    and "capturedList (joinRenderPhaseUpdates q h) q zs"
    and "lastCapturedUpdate (queues (joinRenderPhaseUpdates q h) q)
           = lastCapturedUpdate (queues h q)"
proof -
  let ?h' = "joinRenderPhaseUpdates q h"
  have goal: "persistentList ?h' q (if xs = [] then [] else xs @ ys)
      \<and> lastUpdate (queues ?h' q) = (if xs = [] then None else Some (last (xs @ ys)))
      \<and> renderPhaseList ?h' q []
      \<and> lastRenderPhaseUpdate (queues ?h' q) = None
      \<and> capturedList ?h' q zs
      \<and> lastCapturedUpdate (queues ?h' q) = lastCapturedUpdate (queues h q)"
  proof (cases "ys = []")
    case True
    with ys have "firstRenderPhaseUpdate (queues h q) = None"
      by (simp add: renderPhaseList_def)
    with True xs lx ys ly zs show ?thesis
      by (auto simp: joinRenderPhaseUpdates_def)
  next
    case ny: False
    with ys obtain y where fy: "firstRenderPhaseUpdate (queues h q) = Some y"
      by (cases ys) (auto simp: renderPhaseList_def)
    show ?thesis
    proof (cases "xs = []")
      case True
      with xs lx zs fy show ?thesis
        by (simp add: joinRenderPhaseUpdates_def persistentList_def renderPhaseList_def
            capturedList_def)
    next
      case False
      from xs have lxs: "linked (nextOf h) (firstUpdate (queues h q)) xs"
        by (simp add: persistentList_def)
      from ys have lys: "linked (nextOf h) (firstRenderPhaseUpdate (queues h q)) ys"
        by (simp add: renderPhaseList_def)
      from False lxs lys d(1)
      have j: "linked ((nextOf h)(last xs := firstRenderPhaseUpdate (queues h q)))
                 (firstUpdate (queues h q)) (xs @ ys)"
        by (rule linked_join)
      from False d(2) have "last xs \<notin> set zs" using last_in_set by fastforce
      with zs have c: "linked ((nextOf h)(last xs := firstRenderPhaseUpdate (queues h q)))
                 (firstCapturedUpdate (queues h q)) zs"
        by (simp add: capturedList_def linked_upd_other)
      from False ny lx ly fy j c show ?thesis
        by (simp add: joinRenderPhaseUpdates_def persistentList_def renderPhaseList_def
            capturedList_def nextOf_setUpdate_nxt)
    qed
  qed
  from goal show "persistentList ?h' q (if xs = [] then [] else xs @ ys)" by simp
  from goal show "lastUpdate (queues ?h' q) = (if xs = [] then None else Some (last (xs @ ys)))"
    by simp
  from goal show "renderPhaseList ?h' q []" by simp
  from goal show "lastRenderPhaseUpdate (queues ?h' q) = None" by simp
  from goal show "capturedList ?h' q zs" by simp
  from goal show "lastCapturedUpdate (queues ?h' q) = lastCapturedUpdate (queues h q)" by simp
qed

lemma joinCapturedUpdates_lists:
  assumes xs: "persistentList h q xs"
    and lx: "lastUpdate (queues h q) = (if xs = [] then None else Some (last xs))"
    and ys: "renderPhaseList h q []"
    and zs: "capturedList h q zs"
    and lz: "lastCapturedUpdate (queues h q) = (if zs = [] then None else Some (last zs))"
    and d: "set xs \<inter> set zs = {}"
  shows "persistentList (joinCapturedUpdates q h) q (if xs = [] then [] else xs @ zs)"
    and "lastUpdate (queues (joinCapturedUpdates q h) q)
           = (if xs = [] then None else Some (last (xs @ zs)))"
    and "renderPhaseList (joinCapturedUpdates q h) q []"
    and "capturedList (joinCapturedUpdates q h) q []"
proof -
  let ?h' = "joinCapturedUpdates q h"
  have goal: "persistentList ?h' q (if xs = [] then [] else xs @ zs)
      \<and> lastUpdate (queues ?h' q) = (if xs = [] then None else Some (last (xs @ zs)))
      \<and> renderPhaseList ?h' q []
      \<and> capturedList ?h' q []"
  proof (cases "zs = []")
    case True
    with zs have "firstCapturedUpdate (queues h q) = None"
      by (simp add: capturedList_def)
    with True xs lx ys zs show ?thesis
      by (auto simp: joinCapturedUpdates_def)
  next
    case nz: False
    with zs obtain z where fz: "firstCapturedUpdate (queues h q) = Some z"
      by (cases zs) (auto simp: capturedList_def)
    show ?thesis
    proof (cases "xs = []")
      case True
      with xs lx ys fz show ?thesis
        by (simp add: joinCapturedUpdates_def persistentList_def renderPhaseList_def
            capturedList_def)
    next
      case False
      from xs have lxs: "linked (nextOf h) (firstUpdate (queues h q)) xs"
        by (simp add: persistentList_def)
      from zs have lzs: "linked (nextOf h) (firstCapturedUpdate (queues h q)) zs"
        by (simp add: capturedList_def)
      from False lxs lzs d
      have j: "linked ((nextOf h)(last xs := firstCapturedUpdate (queues h q)))
                 (firstUpdate (queues h q)) (xs @ zs)"
        by (rule linked_join)
      from False nz lx lz fz j ys show ?thesis
        by (simp add: joinCapturedUpdates_def persistentList_def renderPhaseList_def
            capturedList_def nextOf_setUpdate_nxt)
    qed
  qed
  from goal show "persistentList ?h' q (if xs = [] then [] else xs @ zs)" by simp
  from goal show "lastUpdate (queues ?h' q) = (if xs = [] then None else Some (last (xs @ zs)))"
    by simp
  from goal show "renderPhaseList ?h' q []" by simp
  from goal show "capturedList ?h' q []" by simp
qed

lemma commitUpdateQueue_linked:
  assumes "effectList h q es"
  shows "commitUpdateQueue fw q P h
         = Some ((setQueue q (\<lambda>q. q\<lparr>firstEffect := None, lastEffect := None\<rparr>)
                   (joinCapturedUpdates q (joinRenderPhaseUpdates q h)))
                 \<lparr>updates := (\<lambda>r. if r \<in> set es
                     then (updates (setQueue q (\<lambda>q. q\<lparr>firstEffect := None, lastEffect := None\<rparr>)
                             (joinCapturedUpdates q (joinRenderPhaseUpdates q h))) r)\<lparr>commit := None\<rparr>
                     else updates (setQueue q (\<lambda>q. q\<lparr>firstEffect := None, lastEffect := None\<rparr>)
                             (joinCapturedUpdates q (joinRenderPhaseUpdates q h))) r),
                   fired := fired (setQueue q (\<lambda>q. q\<lparr>firstEffect := None, lastEffect := None\<rparr>)
                             (joinCapturedUpdates q (joinRenderPhaseUpdates q h)))
                            @ firedBy (setQueue q (\<lambda>q. q\<lparr>firstEffect := None, lastEffect := None\<rparr>)
                             (joinCapturedUpdates q (joinRenderPhaseUpdates q h))) fw es\<rparr>)"
proof -
  let ?h1 = "joinCapturedUpdates q (joinRenderPhaseUpdates q h)"
  let ?h2 = "setQueue q (\<lambda>q. q\<lparr>firstEffect := None, lastEffect := None\<rparr>) ?h1"
  have "linked (nextEffectOf ?h2) (firstEffect (queues ?h1 q)) es"
    using assms by (simp add: effectList_def join_keeps)
  from commitEffects_linked [OF this, of fw]
  show ?thesis unfolding commitUpdateQueue_def Let_def .
qed

lemma commitUpdateQueue_lists_kept:
  assumes "effectList h q es"
  shows "persistentList (the (commitUpdateQueue fw q P h)) q L
           = persistentList (joinCapturedUpdates q (joinRenderPhaseUpdates q h)) q L"
    and "renderPhaseList (the (commitUpdateQueue fw q P h)) q L
           = renderPhaseList (joinCapturedUpdates q (joinRenderPhaseUpdates q h)) q L"
    and "capturedList (the (commitUpdateQueue fw q P h)) q L
           = capturedList (joinCapturedUpdates q (joinRenderPhaseUpdates q h)) q L"
    and "lastUpdate (queues (the (commitUpdateQueue fw q P h)) q)
           = lastUpdate (queues (joinCapturedUpdates q (joinRenderPhaseUpdates q h)) q)"
proof -
  let ?h1 = "joinCapturedUpdates q (joinRenderPhaseUpdates q h)"
  have n: "nextOf (the (commitUpdateQueue fw q P h)) = nextOf ?h1"
    by (simp add: commitUpdateQueue_linked [OF assms] nextOf_def fun_eq_iff)
  show "persistentList (the (commitUpdateQueue fw q P h)) q L = persistentList ?h1 q L"
    unfolding persistentList_def n by (simp add: commitUpdateQueue_linked [OF assms])
  show "renderPhaseList (the (commitUpdateQueue fw q P h)) q L = renderPhaseList ?h1 q L"
    unfolding renderPhaseList_def n by (simp add: commitUpdateQueue_linked [OF assms])
  show "capturedList (the (commitUpdateQueue fw q P h)) q L = capturedList ?h1 q L"
    unfolding capturedList_def n by (simp add: commitUpdateQueue_linked [OF assms])
  show "lastUpdate (queues (the (commitUpdateQueue fw q P h)) q) = lastUpdate (queues ?h1 q)"
    by (simp add: commitUpdateQueue_linked [OF assms])
qed

text \<open>
  What \<open>commitUpdateQueue\<close> does with the lists. Let the persistent list of the queue be
  \<open>xs\<close> with \<open>lastUpdate\<close> at its end, the render phase list \<open>ys\<close> and the captured list \<open>zs\<close>.
  When \<open>xs\<close> is not empty the persistent list becomes \<open>xs @ ys @ zs\<close>; the join is under the
  test \<open>lastUpdate !== null\<close>, and the heads of the two local lists are set to \<open>null\<close> in
  either case.
\<close>
lemma commitUpdateQueue_joins_lists:
  assumes xs: "persistentList h q xs"
    and lx: "lastUpdate (queues h q) = (if xs = [] then None else Some (last xs))"
    and ys: "renderPhaseList h q ys"
    and ly: "lastRenderPhaseUpdate (queues h q) = (if ys = [] then None else Some (last ys))"
    and zs: "capturedList h q zs"
    and lz: "lastCapturedUpdate (queues h q) = (if zs = [] then None else Some (last zs))"
    and d: "distinct (xs @ ys @ zs)"
    and es: "effectList h q es"
  shows "\<exists>h'. commitUpdateQueue fw q P h = Some h'
           \<and> persistentList h' q (if xs = [] then [] else xs @ ys @ zs)
           \<and> lastUpdate (queues h' q) = (if xs = [] then None else Some (last (xs @ ys @ zs)))
           \<and> renderPhaseList h' q []
           \<and> capturedList h' q []"
proof -
  let ?h1 = "joinRenderPhaseUpdates q h"
  let ?h2 = "joinCapturedUpdates q ?h1"
  let ?X = "if xs = [] then [] else xs @ ys"
  from d have dj: "set xs \<inter> set ys = {}" "set xs \<inter> set zs = {}" "set ys \<inter> set zs = {}"
    by auto
  note r = joinRenderPhaseUpdates_lists [OF xs lx ys ly zs dj(1,2)]
  have lX: "lastUpdate (queues ?h1 q) = (if ?X = [] then None else Some (last ?X))"
    using r(2) by simp
  have lz1: "lastCapturedUpdate (queues ?h1 q) = (if zs = [] then None else Some (last zs))"
    using r(6) lz by simp
  have dX: "set ?X \<inter> set zs = {}" using dj by auto
  note c = joinCapturedUpdates_lists [OF r(1) lX r(3) r(5) lz1 dX]
  have "commitUpdateQueue fw q P h = Some (the (commitUpdateQueue fw q P h))"
    by (simp add: commitUpdateQueue_linked [OF es])
  moreover have "persistentList (the (commitUpdateQueue fw q P h)) q
                   (if xs = [] then [] else xs @ ys @ zs)"
    using c(1) by (cases "xs = []") (simp_all add: commitUpdateQueue_lists_kept [OF es])
  moreover have "lastUpdate (queues (the (commitUpdateQueue fw q P h)) q)
                   = (if xs = [] then None else Some (last (xs @ ys @ zs)))"
    using c(2) by (cases "xs = []") (simp_all add: commitUpdateQueue_lists_kept [OF es])
  moreover have "renderPhaseList (the (commitUpdateQueue fw q P h)) q []"
    using c(3) by (simp add: commitUpdateQueue_lists_kept [OF es])
  moreover have "capturedList (the (commitUpdateQueue fw q P h)) q []"
    using c(4) by (simp add: commitUpdateQueue_lists_kept [OF es])
  ultimately show ?thesis by blast
qed

lemma threeLists_commit_facts:
  "persistentList threeListsStore 0 [1]"
  "lastUpdate (queues threeListsStore 0) = (if [1 :: nat] = [] then None else Some (last [1]))"
  "renderPhaseList threeListsStore 0 [2, 3]"
  "lastRenderPhaseUpdate (queues threeListsStore 0)
     = (if [2, 3 :: nat] = [] then None else Some (last [2, 3]))"
  "capturedList threeListsStore 0 [4, 5]"
  "lastCapturedUpdate (queues threeListsStore 0)
     = (if [4, 5 :: nat] = [] then None else Some (last [4, 5]))"
  "distinct ([1] @ [2, 3] @ [4, 5 :: nat])"
  "effectList threeListsStore 0 []"
  by (simp_all add: threeLists_simps effectList_def)

lemma commitUpdateQueue_joins_lists_example:
  "persistentList threeListsStore 0 [1]
   \<and> lastUpdate (queues threeListsStore 0) = Some 1
   \<and> renderPhaseList threeListsStore 0 [2, 3]
   \<and> capturedList threeListsStore 0 [4, 5]
   \<and> commitUpdateQueue 0 0 1 threeListsStore \<noteq> None
   \<and> persistentList (the (commitUpdateQueue 0 0 1 threeListsStore)) 0 [1, 2, 3, 4, 5]
   \<and> lastUpdate (queues (the (commitUpdateQueue 0 0 1 threeListsStore)) 0) = Some 5"
  using commitUpdateQueue_joins_lists [OF threeLists_commit_facts, of 0 1]
    threeLists_commit_facts(1-6)
  by auto

lemmas renderPhaseOnly_simps =
  renderPhaseOnlyStore_def enqueueRenderPhaseUpdate_def workInProgressQueue_def
  initialStore_def appendLetters_def store_simps renderPhaseList_def capturedList_def
  persistentList_def nextOf_def

text \<open>
  C2. The claim is that a render phase list that is not empty is joined to the persistent
  list also when that list is empty at commit time. The code does not do it: the render
  phase update has priority 2, the render at priority 1 skips it, keeps it as the head of
  the render phase list, records its priority in the queue and sets the effect flag of
  the fiber; the persistent list is empty, and \<open>commitUpdateQueue\<close> leaves the update in no
  list. The queue keeps the expiration time 2 with no update, and a render at priority 2
  does not apply the update.
\<close>
theorem commitUpdateQueue_empty_persistent_list:
  "expirationTime (updates renderPhaseOnlyStore 1) = 2
   \<and> processUpdateQueue 0 0 1 renderPhaseOnlyStore \<noteq> None
   \<and> persistentList (the (processUpdateQueue 0 0 1 renderPhaseOnlyStore)) 0 []
   \<and> renderPhaseList (the (processUpdateQueue 0 0 1 renderPhaseOnlyStore)) 0 [1]
   \<and> qExpirationTime (queues (the (processUpdateQueue 0 0 1 renderPhaseOnlyStore)) 0) = 2
   \<and> effectTag (fibers (the (processUpdateQueue 0 0 1 renderPhaseOnlyStore)) 0)
       = UpdateQueueEffect
   \<and> commitUpdateQueue 0 0 1 (the (processUpdateQueue 0 0 1 renderPhaseOnlyStore)) \<noteq> None
   \<and> persistentList
        (the (commitUpdateQueue 0 0 1 (the (processUpdateQueue 0 0 1 renderPhaseOnlyStore)))) 0 []
   \<and> renderPhaseList
        (the (commitUpdateQueue 0 0 1 (the (processUpdateQueue 0 0 1 renderPhaseOnlyStore)))) 0 []
   \<and> capturedList
        (the (commitUpdateQueue 0 0 1 (the (processUpdateQueue 0 0 1 renderPhaseOnlyStore)))) 0 []
   \<and> qExpirationTime (queues
        (the (commitUpdateQueue 0 0 1 (the (processUpdateQueue 0 0 1 renderPhaseOnlyStore)))) 0)
       = 2
   \<and> processUpdateQueue 0 0 2
        (the (commitUpdateQueue 0 0 1 (the (processUpdateQueue 0 0 1 renderPhaseOnlyStore))))
       \<noteq> None
   \<and> memoizedState (fibers (the (processUpdateQueue 0 0 2
        (the (commitUpdateQueue 0 0 1 (the (processUpdateQueue 0 0 1 renderPhaseOnlyStore))))))
        0) = []"
  by (simp add: renderPhaseOnly_simps process_simps commit_simps)

section \<open>Enqueueing on one queue and on two\<close>

lemma linked_snoc:
  assumes "linked nx p xs" and "xs \<noteq> []" and "u \<notin> set xs" and "nx u = None"
  shows "linked (nx(last xs := Some u)) p (xs @ [u])"
proof -
  have "linked nx (Some u) [u]" using assms(4) by simp
  with assms show ?thesis by (intro linked_join) auto
qed

lemma appendUpdateToQueue_frame:
  "nextOf (appendUpdateToQueue q u t h)
     = (case lastUpdate (queues h q) of None \<Rightarrow> nextOf h | Some l \<Rightarrow> (nextOf h)(l := Some u))"
  "q' \<noteq> q \<Longrightarrow> queues (appendUpdateToQueue q u t h) q' = queues h q'"
  "firstUpdate (queues (appendUpdateToQueue q u t h) q)
     = (case lastUpdate (queues h q) of None \<Rightarrow> Some u | Some l \<Rightarrow> firstUpdate (queues h q))"
  "lastUpdate (queues (appendUpdateToQueue q u t h) q) = Some u"
  "fibers (appendUpdateToQueue q u t h) = fibers h"
  by (auto simp: appendUpdateToQueue_def Let_def nextOf_def fun_eq_iff split: option.splits)

lemma appendUpdateToQueue_list:
  assumes xs: "persistentList h q xs"
    and lx: "lastUpdate (queues h q) = (if xs = [] then None else Some (last xs))"
    and u: "u \<notin> set xs" "nextOf h u = None"
  shows "persistentList (appendUpdateToQueue q u t h) q (xs @ [u])"
proof (cases "xs = []")
  case True
  with xs lx u show ?thesis
    by (simp add: persistentList_def appendUpdateToQueue_frame)
next
  case False
  from xs have "linked (nextOf h) (firstUpdate (queues h q)) xs"
    by (simp add: persistentList_def)
  from linked_snoc [OF this False u]
  show ?thesis using False lx by (simp add: persistentList_def appendUpdateToQueue_frame)
qed

text \<open>
  Another queue whose list does not end where the update is linked in still has its list.
\<close>
lemma appendUpdateToQueue_other:
  assumes ys: "persistentList h q' ys" and "q' \<noteq> q"
    and "case lastUpdate (queues h q) of None \<Rightarrow> True | Some l \<Rightarrow> l \<notin> set ys"
  shows "persistentList (appendUpdateToQueue q u t h) q' ys"
  using assms
  by (auto simp: persistentList_def appendUpdateToQueue_frame linked_upd_other
      split: option.splits)

lemma enqueueQueues_existing:
  "alternate (fibers h fiber) = None \<Longrightarrow> updateQueue (fibers h fiber) = Some q
     \<Longrightarrow> enqueueQueues fiber h = (q, None, h)"
  "alternate (fibers h fiber) = Some a \<Longrightarrow> updateQueue (fibers h fiber) = Some q
     \<Longrightarrow> updateQueue (fibers h a) = Some q' \<Longrightarrow> enqueueQueues fiber h = (q, Some q', h)"
  by (simp_all add: enqueueQueues_def)

text \<open>
  C10. When the fiber has no alternate, or the fiber and its alternate have the same
  queue object, \<open>enqueueUpdate\<close> appends a new update once: the persistent list of the
  fiber's queue (created when the fiber had none) is the list it was, followed by the
  update, so a traversal sees the update exactly one time.
\<close>
theorem enqueueUpdate_single_queue:
  assumes single: "alternate (fibers h fiber) = None
                   \<or> (\<exists>a q. alternate (fibers h fiber) = Some a
                         \<and> updateQueue (fibers h fiber) = Some q
                         \<and> updateQueue (fibers h a) = Some q)"
    and lists: "case updateQueue (fibers h fiber) of
                  None \<Rightarrow> xs = []
                | Some q \<Rightarrow> persistentList h q xs
                    \<and> lastUpdate (queues h q) = (if xs = [] then None else Some (last xs))"
    and u: "u \<notin> set xs" "nxt (updates h u) = None"
  shows "\<exists>q. updateQueue (fibers (enqueueUpdate fiber u t h) fiber) = Some q
           \<and> persistentList (enqueueUpdate fiber u t h) q (xs @ [u])
           \<and> count_list (xs @ [u]) u = 1"
proof -
  from u(2) have nu: "nextOf h u = None" by (simp add: nextOf_def)
  from u(1) have cnt: "count_list (xs @ [u]) u = 1" by (simp add: count_list_0_iff)
  show ?thesis
  proof (cases "updateQueue (fibers h fiber)")
    case None
    with single have alt: "alternate (fibers h fiber) = None" by auto
    let ?q = "nextQueue h"
    let ?h1 = "setFiber fiber (\<lambda>f. f\<lparr>updateQueue := Some ?q\<rparr>)
                 (snd (createUpdateQueue (memoizedState (fibers h fiber)) h))"
    have e: "enqueueUpdate fiber u t h = appendUpdateToQueue ?q u t ?h1"
      using None alt by (simp add: enqueueUpdate_def enqueueQueues_def createUpdateQueue_def)
    have "persistentList ?h1 ?q []" "lastUpdate (queues ?h1 ?q) = None" "nextOf ?h1 u = None"
      using nu by (simp_all add: persistentList_def createUpdateQueue_def nextOf_def)
    then have "persistentList (appendUpdateToQueue ?q u t ?h1) ?q ([] @ [u])"
      by (intro appendUpdateToQueue_list) simp_all
    moreover have "updateQueue (fibers (appendUpdateToQueue ?q u t ?h1) fiber) = Some ?q"
      by (simp add: appendUpdateToQueue_frame)
    ultimately show ?thesis using e None lists cnt by simp
  next
    case (Some q)
    with lists have xs: "persistentList h q xs"
      and lx: "lastUpdate (queues h q) = (if xs = [] then None else Some (last xs))" by simp_all
    have e: "enqueueUpdate fiber u t h = appendUpdateToQueue q u t h"
      using single Some by (auto simp: enqueueUpdate_def enqueueQueues_existing)
    have "persistentList (appendUpdateToQueue q u t h) q (xs @ [u])"
      using xs lx u(1) nu by (rule appendUpdateToQueue_list)
    moreover have "updateQueue (fibers (appendUpdateToQueue q u t h) fiber) = Some q"
      using Some by (simp add: appendUpdateToQueue_frame)
    ultimately show ?thesis using e cnt by simp
  qed
qed

lemma letters_enqueue_facts:
  "alternate (fibers lettersStore 0) = None
   \<or> (\<exists>a q. alternate (fibers lettersStore 0) = Some a
         \<and> updateQueue (fibers lettersStore 0) = Some q
         \<and> updateQueue (fibers lettersStore a) = Some q)"
  "case updateQueue (fibers lettersStore 0) of
     None \<Rightarrow> [1, 2, 3, 4] = ([] :: nat list)
   | Some q \<Rightarrow> persistentList lettersStore q [1, 2, 3, 4]
       \<and> lastUpdate (queues lettersStore q)
           = (if [1, 2, 3, 4 :: nat] = [] then None else Some (last [1, 2, 3, 4]))"
  "5 \<notin> set [1, 2, 3, 4 :: nat]"
  "nxt (updates lettersStore 5) = None"
  by (simp_all add: letters_simps persistentList_def nextOf_def)

theorem enqueueUpdate_single_queue_witness:
  "alternate (fibers lettersStore 0) = None
   \<and> updateQueue (fibers lettersStore 0) = Some 0
   \<and> persistentList lettersStore 0 [1, 2, 3, 4]
   \<and> updateQueue (fibers (enqueueUpdate 0 5 1 lettersStore) 0) = Some 0
   \<and> persistentList (enqueueUpdate 0 5 1 lettersStore) 0 [1, 2, 3, 4, 5]"
proof -
  have a: "alternate (fibers lettersStore 0) = None"
    "updateQueue (fibers lettersStore 0) = Some 0"
    "persistentList lettersStore 0 [1, 2, 3, 4]"
    "updateQueue (fibers (enqueueUpdate 0 5 1 lettersStore) 0) = Some 0"
    by (simp_all add: letters_simps persistentList_def nextOf_def)
  with enqueueUpdate_single_queue [OF letters_enqueue_facts, of 1] show ?thesis by auto
qed

lemmas paired_simps =
  pairedFibersStore_def initialStore_def appendLetters_def store_simps persistentList_def
  nextOf_def

text \<open>
  C4, as stated, fails: in the store of the header comment's picture both fibers have a
  queue of their own, and after \<open>enqueueUpdate\<close> the list of the current queue is A, B, C, D
  while the list of the work-in-progress queue is C, D. And where the \<open>lastUpdate\<close> of a
  queue is not the end of its list, as the join of \<open>commitUpdateQueue\<close> leaves the queue of
  the other fiber, the new update is not appended at the end: the lists A, B, C and B, C
  become A, B, D and B, D.
\<close>
theorem enqueueUpdate_lists_differ:
  "alternate (fibers aheadStore 0) = Some 1
   \<and> updateQueue (fibers aheadStore 0) = Some 0
   \<and> updateQueue (fibers aheadStore 1) = Some 1
   \<and> persistentList (enqueueUpdate 0 4 2 aheadStore) 0 [1, 2, 3, 4]
   \<and> persistentList (enqueueUpdate 0 4 2 aheadStore) 1 [3, 4]
   \<and> \<not> persistentList (enqueueUpdate 0 4 2 aheadStore) 1 [1, 2, 3, 4]
   \<and> alternate (fibers staleLastUpdateStore 0) = Some 1
   \<and> updateQueue (fibers staleLastUpdateStore 0) = Some 0
   \<and> updateQueue (fibers staleLastUpdateStore 1) = Some 1
   \<and> persistentList staleLastUpdateStore 0 [1, 2, 3]
   \<and> persistentList staleLastUpdateStore 1 [2, 3]
   \<and> lastUpdate (queues staleLastUpdateStore 0) = Some 2
   \<and> lastUpdate (queues staleLastUpdateStore 1) = Some 3
   \<and> persistentList (enqueueUpdate 0 4 1 staleLastUpdateStore) 0 [1, 2, 4]
   \<and> persistentList (enqueueUpdate 0 4 1 staleLastUpdateStore) 1 [2, 4]"
  by (simp add: aheadStore_def staleLastUpdateStore_def paired_simps process_simps commit_simps
      enqueueRenderPhaseUpdate_def workInProgressQueue_def)

text \<open>
  C5 fails on the path of structural sharing: the second update has priority 1, the first
  queue's expiration time becomes 1, that of the alternate's queue stays 5 although its
  list holds the update, and a render at priority 1 on that queue returns at once.
\<close>
theorem enqueueUpdate_second_queue_not_tightened:
  "updateQueue (fibers urgentStore 0) = Some 0
   \<and> updateQueue (fibers urgentStore 1) = Some 1
   \<and> persistentList urgentStore 0 [1, 2]
   \<and> persistentList urgentStore 1 [1, 2]
   \<and> expirationTime (updates urgentStore 2) = 1
   \<and> qExpirationTime (queues urgentStore 0) = 1
   \<and> qExpirationTime (queues urgentStore 1) = 5
   \<and> processUpdateQueue 1 1 1 urgentStore = Some urgentStore"
  by (simp add: urgentStore_def paired_simps processUpdateQueue_def)

text \<open>
  C4 (amended). Let the fiber and its alternate have different queues, with the persistent
  lists \<open>xs1\<close> and \<open>xs2\<close>, the \<open>lastUpdate\<close> of each queue being the last update of its list
  (\<open>null\<close> when the list is empty), and the two lists, when both are not empty, ending in
  the same update. Let \<open>u\<close> be a new update: it is in neither list and its \<open>next\<close> is
  \<open>null\<close>. After \<open>enqueueUpdate\<close> of \<open>u\<close> the lists are \<open>xs1 @ [u]\<close> and \<open>xs2 @ [u]\<close>: the
  update is the last of both, by identity, is the \<open>lastUpdate\<close> of both queues, and is
  seen once in each traversal.
\<close>
theorem enqueueUpdate_two_queues:
  assumes alt: "alternate (fibers h fiber) = Some a"
    and q1: "updateQueue (fibers h fiber) = Some q1"
    and q2: "updateQueue (fibers h a) = Some q2"
    and ne: "q1 \<noteq> q2"
    and xs1: "persistentList h q1 xs1"
    and l1: "lastUpdate (queues h q1) = (if xs1 = [] then None else Some (last xs1))"
    and xs2: "persistentList h q2 xs2"
    and l2: "lastUpdate (queues h q2) = (if xs2 = [] then None else Some (last xs2))"
    and share: "xs1 \<noteq> [] \<and> xs2 \<noteq> [] \<longrightarrow> last xs1 = last xs2"
    and u: "u \<notin> set xs1" "u \<notin> set xs2" "nxt (updates h u) = None"
  shows "persistentList (enqueueUpdate fiber u t h) q1 (xs1 @ [u])
         \<and> persistentList (enqueueUpdate fiber u t h) q2 (xs2 @ [u])
         \<and> lastUpdate (queues (enqueueUpdate fiber u t h) q1) = Some u
         \<and> lastUpdate (queues (enqueueUpdate fiber u t h) q2) = Some u
         \<and> count_list (xs1 @ [u]) u = 1 \<and> count_list (xs2 @ [u]) u = 1"
proof -
  from u(3) have nu: "nextOf h u = None" by (simp add: nextOf_def)
  from u have cnt: "count_list (xs1 @ [u]) u = 1" "count_list (xs2 @ [u]) u = 1"
    by (simp_all add: count_list_0_iff)
  let ?h1 = "appendUpdateToQueue q1 u t h"
  have eq: "enqueueQueues fiber h = (q1, Some q2, h)"
    using alt q1 q2 by (rule enqueueQueues_existing)
  have p1: "persistentList ?h1 q1 (xs1 @ [u])"
    using xs1 l1 u(1) nu by (rule appendUpdateToQueue_list)
  have la1: "lastUpdate (queues ?h1 q1) = Some u" by (simp add: appendUpdateToQueue_frame)
  show ?thesis
  proof (cases "xs1 = [] \<or> xs2 = []")
    case True
    let ?h2 = "appendUpdateToQueue q2 u t ?h1"
    have e: "enqueueUpdate fiber u t h = ?h2"
      using True eq ne l1 l2 by (auto simp: enqueueUpdate_def)
    have x2: "persistentList ?h1 q2 xs2"
    proof (rule appendUpdateToQueue_other [OF xs2])
      show "q2 \<noteq> q1" using ne by simp
      show "case lastUpdate (queues h q1) of None \<Rightarrow> True | Some l \<Rightarrow> l \<notin> set xs2"
        using True l1 xs2 by (auto split: option.splits)
    qed
    have l2': "lastUpdate (queues ?h1 q2) = (if xs2 = [] then None else Some (last xs2))"
      using l2 ne by (simp add: appendUpdateToQueue_frame)
    have nu1: "nextOf ?h1 u = None"
      using nu u(1) l1 last_in_set [of xs1]
      by (auto simp: appendUpdateToQueue_frame split: option.splits if_splits)
    have p2: "persistentList ?h2 q2 (xs2 @ [u])"
      using x2 l2' u(2) nu1 by (rule appendUpdateToQueue_list)
    have p1': "persistentList ?h2 q1 (xs1 @ [u])"
    proof (rule appendUpdateToQueue_other [OF p1 ne])
      show "case lastUpdate (queues ?h1 q2) of None \<Rightarrow> True | Some l \<Rightarrow> l \<notin> set (xs1 @ [u])"
        using True l2' u(2) by (auto split: option.splits)
    qed
    have "lastUpdate (queues ?h2 q1) = Some u"
      using la1 ne by (simp add: appendUpdateToQueue_frame)
    moreover have "lastUpdate (queues ?h2 q2) = Some u" by (simp add: appendUpdateToQueue_frame)
    ultimately show ?thesis using e p1' p2 cnt by simp
  next
    case False
    then have n1: "xs1 \<noteq> []" and n2: "xs2 \<noteq> []" by simp_all
    with share have sl: "last xs1 = last xs2" by simp
    let ?h2 = "setQueue q2 (\<lambda>q. q\<lparr>lastUpdate := Some u\<rparr>) ?h1"
    have e: "enqueueUpdate fiber u t h = ?h2"
      using n1 n2 eq ne l1 l2 by (simp add: enqueueUpdate_def)
    have "linked (nextOf h) (firstUpdate (queues h q2)) xs2"
      using xs2 by (simp add: persistentList_def)
    from linked_snoc [OF this n2 u(2) nu]
    have p2: "persistentList ?h2 q2 (xs2 @ [u])"
      using n1 l1 sl ne by (simp add: persistentList_def appendUpdateToQueue_frame)
    have p1': "persistentList ?h2 q1 (xs1 @ [u])"
      using p1 ne by (simp add: persistentList_def)
    have "lastUpdate (queues ?h2 q1) = Some u" using la1 ne by simp
    moreover have "lastUpdate (queues ?h2 q2) = Some u" by simp
    ultimately show ?thesis using e p1' p2 cnt by simp
  qed
qed

lemma ahead_facts:
  "alternate (fibers aheadStore 0) = Some 1"
  "updateQueue (fibers aheadStore 0) = Some 0"
  "updateQueue (fibers aheadStore 1) = Some 1"
  "(0 :: nat) \<noteq> 1"
  "persistentList aheadStore 0 [1, 2, 3]"
  "lastUpdate (queues aheadStore 0) = (if [1, 2, 3 :: nat] = [] then None else Some (last [1, 2, 3]))"
  "persistentList aheadStore 1 [3]"
  "lastUpdate (queues aheadStore 1) = (if [3 :: nat] = [] then None else Some (last [3]))"
  "[1, 2, 3 :: nat] \<noteq> [] \<and> [3 :: nat] \<noteq> [] \<longrightarrow> last [1, 2, 3 :: nat] = last [3]"
  "4 \<notin> set [1, 2, 3 :: nat]"
  "4 \<notin> set [3 :: nat]"
  "nxt (updates aheadStore 4) = None"
  by (simp_all add: aheadStore_def paired_simps process_simps)

theorem enqueueUpdate_two_queues_witness:
  "alternate (fibers aheadStore 0) = Some 1
   \<and> updateQueue (fibers aheadStore 0) = Some 0
   \<and> updateQueue (fibers aheadStore 1) = Some 1
   \<and> persistentList aheadStore 0 [1, 2, 3]
   \<and> persistentList aheadStore 1 [3]
   \<and> persistentList (enqueueUpdate 0 4 2 aheadStore) 0 [1, 2, 3, 4]
   \<and> persistentList (enqueueUpdate 0 4 2 aheadStore) 1 [3, 4]
   \<and> lastUpdate (queues (enqueueUpdate 0 4 2 aheadStore) 0) = Some 4
   \<and> lastUpdate (queues (enqueueUpdate 0 4 2 aheadStore) 1) = Some 4"
  using enqueueUpdate_two_queues [OF ahead_facts, of 2] ahead_facts(1-3,5,7)
  by simp

end
